theory Spec2Isabelle
  imports Complex_Main "HOL-Library.AList"
begin

section \<open>Errors and results\<close>

text \<open>
  The Python code works on unbounded integers and on float64 arrays. Integers are
  modelled as \<open>int\<close>, float64 values as \<open>real\<close> (rounding is not modelled). Every
  exception the code or a library call can raise is a constructor of \<open>error\<close>, and a
  function that can raise returns \<open>error + 'a\<close>. \<open>NonFinite\<close> is not an exception: it
  marks the places where numpy would continue with \<open>inf\<close> or \<open>nan\<close> (a division by
  zero), which a real number cannot represent.
\<close>

datatype error = ZeroDivisionError | IndexError | ValueError | Cv2Error | OverflowError | NonFinite

definition bindE :: "error + 'a \<Rightarrow> ('a \<Rightarrow> error + 'b) \<Rightarrow> error + 'b" where
  "bindE r f = (case r of Inl e \<Rightarrow> Inl e | Inr v \<Rightarrow> f v)"

fun mapE :: "('a \<Rightarrow> error + 'b) \<Rightarrow> 'a list \<Rightarrow> error + 'b list" where
  "mapE f [] = Inr []"
| "mapE f (x # xs) = bindE (f x) (\<lambda>y. bindE (mapE f xs) (\<lambda>ys. Inr (y # ys)))"

section \<open>main.py: get_sparse_neighbor\<close>

text \<open>
  The dictionary is an association list in insertion order; \<open>d[k] = v\<close> is
  \<open>AList.update\<close>, which overwrites the value of a key already present and appends a
  new key at the end, as a Python dict does. \<open>p // m\<close> and \<open>p % m\<close> are floor
  division and its remainder, as \<open>div\<close> and \<open>mod\<close> on \<open>int\<close>; \<open>m = 0\<close> raises.
\<close>

type_synonym neighbor_dict = "(int \<times> (int \<times> int \<times> int)) list"

definition get_sparse_neighbor :: "int \<Rightarrow> int \<Rightarrow> int \<Rightarrow> error + neighbor_dict" where
  "get_sparse_neighbor p n m =
     (if m = 0 then Inl ZeroDivisionError
      else
        let i = p div m; j = p mod m;
            d0 = [];
            d1 = (if i - 1 \<ge> 0 then AList.update ((i - 1) * m + j) (i - 1, j, 0) d0 else d0);
            d2 = (if i + 1 < n then AList.update ((i + 1) * m + j) (i + 1, j, 0) d1 else d1);
            d3 = (if j - 1 \<ge> 0 then AList.update (i * m + j - 1) (i, j - 1, 1) d2 else d2);
            d4 = (if j + 1 < m then AList.update (i * m + j + 1) (i, j + 1, 1) d3 else d3)
        in Inr d4)"

definition keys :: "neighbor_dict \<Rightarrow> int set" where
  "keys d = fst ` set d"

text \<open>
  Two auxiliaries for the proofs: the dictionary written out as a list (the four
  conditional entries in insertion order; for \<open>m > 0\<close> no two keys collide, so no
  entry is overwritten), and adjacency of two flat indices in grid coordinates.
\<close>

definition nbr_list :: "int \<Rightarrow> int \<Rightarrow> int \<Rightarrow> neighbor_dict" where
  "nbr_list p n m =
     (let i = p div m; j = p mod m in
      (if 1 \<le> i then [((i - 1) * m + j, (i - 1, j, 0))] else []) @
      (if i + 1 < n then [((i + 1) * m + j, (i + 1, j, 0))] else []) @
      (if 1 \<le> j then [(i * m + j - 1, (i, j - 1, 1))] else []) @
      (if j + 1 < m then [(i * m + j + 1, (i, j + 1, 1))] else []))"


definition adjacent :: "int \<Rightarrow> int \<Rightarrow> int \<Rightarrow> bool" where
  "adjacent m p q \<longleftrightarrow> \<bar>q div m - p div m\<bar> + \<bar>q mod m - p mod m\<bar> = 1"


section \<open>main.py: arrays and library calls\<close>

text \<open>
  A 2-D float64 array is a list of rows. \<open>is_grid n m g\<close> says that \<open>g\<close> has shape
  \<open>(n, m)\<close>. \<open>a[k, l]\<close> on a numpy array accepts a negative index (counted from the
  end) and raises IndexError out of range.
\<close>

type_synonym grid = "real list list"

definition is_grid :: "nat \<Rightarrow> nat \<Rightarrow> 'a list list \<Rightarrow> bool" where
  "is_grid n m g \<longleftrightarrow> length g = n \<and> (\<forall>r \<in> set g. length r = m)"

definition nrows :: "'a list list \<Rightarrow> nat" where
  "nrows g = length g"

definition ncols :: "'a list list \<Rightarrow> nat" where
  "ncols g = (case g of [] \<Rightarrow> 0 | r # _ \<Rightarrow> length r)"

definition np_index :: "'a list \<Rightarrow> int \<Rightarrow> error + 'a" where
  "np_index xs k =
     (let n = int (length xs); k' = (if k < 0 then k + n else k)
      in if 0 \<le> k' \<and> k' < n then Inr (xs ! nat k') else Inl IndexError)"

definition get2 :: "'a list list \<Rightarrow> int \<Rightarrow> int \<Rightarrow> error + 'a" where
  "get2 g k l = bindE (np_index g k) (\<lambda>r. np_index r l)"

text \<open>
  \<open>cv2.Sobel(L, cv2.CV_64F, dx, dy, ksize=1)\<close> is a library call. With \<open>ksize = 1\<close> the
  derivative kernel is \<open>[-1, 0, 1]\<close> along the differentiated axis and \<open>[1]\<close> along the
  other, applied as a correlation with the default border \<open>BORDER_REFLECT_101\<close>
  (index \<open>-1\<close> reads index \<open>1\<close>, index \<open>len\<close> reads \<open>len - 2\<close>, and a line of length 1
  reads its only element). An empty image is refused.
\<close>

definition reflect101 :: "nat \<Rightarrow> int \<Rightarrow> nat" where
  "reflect101 len p =
     (if len = 1 then 0
      else if p < 0 then nat (- p)
      else if int len \<le> p then nat (2 * int len - 2 - p)
      else nat p)"

definition sobel_dx :: "grid \<Rightarrow> error + grid" where
  "sobel_dx src =
     (if nrows src = 0 \<or> ncols src = 0 then Inl Cv2Error
      else Inr (map (\<lambda>r. map (\<lambda>j. r ! reflect101 (length r) (int j + 1)
                                    - r ! reflect101 (length r) (int j - 1))
                              [0..<length r]) src))"

definition sobel_dy :: "grid \<Rightarrow> error + grid" where
  "sobel_dy src =
     (if nrows src = 0 \<or> ncols src = 0 then Inl Cv2Error
      else Inr (map (\<lambda>i. map (\<lambda>j. src ! reflect101 (length src) (int i + 1) ! j
                                    - src ! reflect101 (length src) (int i - 1) ! j)
                              [0..<ncols src]) [0..<length src]))"

text \<open>
  \<open>scipy.ndimage.convolve(input, weights, mode='constant')\<close> is a library call: a true
  convolution, the input read as 0 outside its bounds. For a kernel of \<open>kh\<close> by
  \<open>kw\<close> cells, output cell \<open>(i, j)\<close> is the sum over kernel cells \<open>(a, b)\<close> of
  \<open>weights[a][b] * input[i + kh div 2 - a][j + kw div 2 - b]\<close>. A kernel with an
  empty axis is refused (ValueError, invalid origin).
\<close>

definition cell0 :: "grid \<Rightarrow> int \<Rightarrow> int \<Rightarrow> real" where
  "cell0 g i j =
     (if 0 \<le> i \<and> i < int (nrows g) \<and> 0 \<le> j \<and> j < int (ncols g)
      then g ! nat i ! nat j else 0)"

definition convolve :: "grid \<Rightarrow> grid \<Rightarrow> error + grid" where
  "convolve inp w =
     (let kh = nrows w; kw = ncols w in
      if kh = 0 \<or> kw = 0 then Inl ValueError
      else Inr (map (\<lambda>i. map (\<lambda>j.
                  sum_list (map (\<lambda>a. sum_list (map (\<lambda>b.
                      w ! a ! b * cell0 inp (int i + int (kh div 2) - int a)
                                            (int j + int (kw div 2) - int b))
                    [0..<kw])) [0..<kh]))
                [0..<ncols inp]) [0..<nrows inp]))"

text \<open>Elementwise numpy operations. A zero denominator leaves the finite numbers.\<close>

definition ones_like :: "grid \<Rightarrow> grid" where
  "ones_like g = map (map (\<lambda>_. 1)) g"

definition grid_abs :: "grid \<Rightarrow> grid" where
  "grid_abs g = map (map abs) g"

definition grid_add_scalar :: "grid \<Rightarrow> real \<Rightarrow> grid" where
  "grid_add_scalar g c = map (map (\<lambda>v. v + c)) g"

definition grid_div :: "grid \<Rightarrow> grid \<Rightarrow> error + grid" where
  "grid_div a b =
     (if \<exists>r \<in> set b. \<exists>v \<in> set r. v = 0 then Inl NonFinite
      else Inr (map2 (map2 (/)) a b))"

section \<open>main.py: compute_smoothness_weights\<close>

text \<open>
  \<open>int(x == 1), int(x == 0)\<close> selects the horizontal derivative for \<open>x = 1\<close> and the
  vertical one for \<open>x = 0\<close>; for any other \<open>x\<close> both orders are 0, which cv2 refuses.
\<close>

definition compute_smoothness_weights :: "grid \<Rightarrow> int \<Rightarrow> grid \<Rightarrow> real \<Rightarrow> error + grid" where
  "compute_smoothness_weights L x kern eps =
     bindE (if x = 1 then sobel_dx L else if x = 0 then sobel_dy L else Inl Cv2Error) (\<lambda>Lp.
     bindE (convolve (ones_like L) kern) (\<lambda>c1.
     bindE (convolve Lp kern) (\<lambda>c2.
     bindE (grid_div c1 (grid_add_scalar (grid_abs c2) eps)) (\<lambda>Txp.
     grid_div Txp (grid_add_scalar (grid_abs Lp) eps)))))"

section \<open>main.py: the Laplacian of refine_illumination_map_linear\<close>

text \<open>
  Lines 89 to 101. The three Python lists \<open>row\<close>, \<open>column\<close>, \<open>data\<close> grow by
  \<open>append\<close>; \<open>diag\<close> is the running sum of the weights of one pixel. The inner loop
  runs over the items of the dictionary in insertion order, the outer loop over
  \<open>range(n * m)\<close>. \<open>wx[k, l] if x else wy[k, l]\<close> takes \<open>wx\<close> when the flag is not 0.
\<close>

type_synonym coo = "int list \<times> int list \<times> real list"

fun neighbor_loop :: "grid \<Rightarrow> grid \<Rightarrow> int \<Rightarrow> neighbor_dict \<Rightarrow> coo \<times> real \<Rightarrow> error + coo \<times> real" where
  "neighbor_loop wx wy p [] st = Inr st"
| "neighbor_loop wx wy p ((q, (k, l, x)) # items) ((row, column, data), diag) =
     bindE (if x \<noteq> 0 then get2 wx k l else get2 wy k l) (\<lambda>weight.
       neighbor_loop wx wy p items
         ((row @ [p], column @ [q], data @ [- weight]), diag + weight))"

fun pixel_loop :: "grid \<Rightarrow> grid \<Rightarrow> int \<Rightarrow> int \<Rightarrow> int list \<Rightarrow> coo \<Rightarrow> error + coo" where
  "pixel_loop wx wy n m [] st = Inr st"
| "pixel_loop wx wy n m (p # ps) (row, column, data) =
     bindE (get_sparse_neighbor p n m) (\<lambda>d.
     bindE (neighbor_loop wx wy p d ((row, column, data), 0)) (\<lambda>((row', column', data'), diag).
       pixel_loop wx wy n m ps (row' @ [p], column' @ [p], data' @ [diag])))"

definition range_list :: "int \<Rightarrow> int list" where
  "range_list k = map int [0..<nat k]"

text \<open>
  A scipy sparse matrix is its shape and its stored entries \<open>(row, column, value)\<close>;
  entries at the same coordinate add up, so the coefficient at \<open>(i, j)\<close> is the sum of
  the stored values there. \<open>csr_matrix((data, (row, column)), shape)\<close> raises
  ValueError when the lists differ in length or an index is outside the shape.
\<close>

record spmatrix =
  nrow :: int
  ncol :: int
  entries :: "(int \<times> int \<times> real) list"

definition csr_matrix :: "real list \<Rightarrow> int list \<Rightarrow> int list \<Rightarrow> int \<times> int \<Rightarrow> error + spmatrix" where
  "csr_matrix data row column shape =
     (if length row \<noteq> length data \<or> length column \<noteq> length data then Inl ValueError
      else if fst shape < 0 \<or> snd shape < 0 then Inl ValueError
      else if (\<exists>r \<in> set row. r < 0 \<or> fst shape \<le> r) \<or> (\<exists>c \<in> set column. c < 0 \<or> snd shape \<le> c)
      then Inl ValueError
      else Inr \<lparr>nrow = fst shape, ncol = snd shape, entries = zip row (zip column data)\<rparr>)"

definition coeff :: "spmatrix \<Rightarrow> int \<Rightarrow> int \<Rightarrow> real" where
  "coeff M i j = sum_list (map (\<lambda>(r, c, v). if r = i \<and> c = j then v else 0) (entries M))"


definition laplacian :: "grid \<Rightarrow> grid \<Rightarrow> int \<Rightarrow> int \<Rightarrow> error + spmatrix" where
  "laplacian wx wy n m =
     bindE (pixel_loop wx wy n m (range_list (n * m)) ([], [], [])) (\<lambda>(row, column, data).
       csr_matrix data row column (n * m, n * m))"

text \<open>
  Lines 104 and 105: \<open>diags([np.ones(n * m)], [0])\<close>, the product of a scalar and a
  sparse matrix, and the sum of two sparse matrices (ValueError on different shapes).
\<close>

definition diags_ones :: "int \<Rightarrow> spmatrix" where
  "diags_ones k = \<lparr>nrow = max k 0, ncol = max k 0, entries = map (\<lambda>p. (p, p, 1)) (range_list k)\<rparr>"

definition sp_scale :: "real \<Rightarrow> spmatrix \<Rightarrow> spmatrix" where
  "sp_scale c M = M\<lparr>entries := map (\<lambda>(r, c', v). (r, c', c * v)) (entries M)\<rparr>"

definition sp_add :: "spmatrix \<Rightarrow> spmatrix \<Rightarrow> error + spmatrix" where
  "sp_add A B =
     (if nrow A \<noteq> nrow B \<or> ncol A \<noteq> ncol B then Inl ValueError
      else Inr (A\<lparr>entries := entries A @ entries B\<rparr>))"

definition linear_system :: "real \<Rightarrow> spmatrix \<Rightarrow> error + spmatrix" where
  "linear_system lambda F = sp_add (diags_ones (nrow F)) (sp_scale lambda F)"

text \<open>What it means for a vector to solve \<open>A x = b\<close>.\<close>

definition matvec :: "spmatrix \<Rightarrow> real list \<Rightarrow> real list" where
  "matvec A x =
     map (\<lambda>p. sum_list (map (\<lambda>q. coeff A (int p) (int q) * x ! q) [0..<nat (ncol A)]))
         [0..<nat (nrow A)]"

definition solves :: "spmatrix \<Rightarrow> real list \<Rightarrow> real list \<Rightarrow> bool" where
  "solves A b x \<longleftrightarrow> length x = nat (ncol A) \<and> matvec A x = b"

text \<open>
  Auxiliaries for the proofs about the Laplacian: the weight the inner loop reads for
  one dictionary value (for indices inside the arrays), the diagonal value of a row,
  the entries one iteration of the outer loop appends, and the matrix the loops build.
\<close>

definition edge_weight :: "grid \<Rightarrow> grid \<Rightarrow> int \<times> int \<times> int \<Rightarrow> real" where
  "edge_weight wx wy c = (case c of (k, l, x) \<Rightarrow> if x \<noteq> 0 then wx ! nat k ! nat l else wy ! nat k ! nat l)"

definition row_diag :: "grid \<Rightarrow> grid \<Rightarrow> int \<Rightarrow> int \<Rightarrow> int \<Rightarrow> real" where
  "row_diag wx wy n m p = sum_list (map (\<lambda>(q, c). edge_weight wx wy c) (nbr_list p n m))"

definition row_triples :: "grid \<Rightarrow> grid \<Rightarrow> int \<Rightarrow> int \<Rightarrow> int \<Rightarrow> (int \<times> int \<times> real) list" where
  "row_triples wx wy n m p =
     map (\<lambda>(q, c). (p, q, - edge_weight wx wy c)) (nbr_list p n m) @ [(p, p, row_diag wx wy n m p)]"

definition lap_matrix :: "grid \<Rightarrow> grid \<Rightarrow> int \<Rightarrow> int \<Rightarrow> spmatrix" where
  "lap_matrix wx wy n m =
     \<lparr>nrow = n * m, ncol = n * m,
      entries = concat (map (row_triples wx wy n m) (range_list (n * m)))\<rparr>"

section \<open>Linear systems\<close>

text \<open>
  Strict row diagonal dominance of a matrix given by its coefficients, on a finite
  index set.
\<close>

definition dominant :: "'a set \<Rightarrow> ('a \<Rightarrow> 'a \<Rightarrow> real) \<Rightarrow> bool" where
  "dominant S A \<longleftrightarrow> (\<forall>i \<in> S. (\<Sum>j \<in> S - {i}. \<bar>A i j\<bar>) < \<bar>A i i\<bar>)"

text \<open>
  Notions the specification uses for matrices: symmetry, the quadratic form
  \<open>x\<^sup>T M x\<close>, and weight maps whose entries are all strictly positive.
\<close>

definition symmetric_matrix :: "spmatrix \<Rightarrow> bool" where
  "symmetric_matrix M \<longleftrightarrow>
     (\<forall>i \<in> {0..<nrow M}. \<forall>j \<in> {0..<ncol M}. coeff M i j = coeff M j i)"

definition quad_form :: "spmatrix \<Rightarrow> real list \<Rightarrow> real" where
  "quad_form M x =
     sum_list (map (\<lambda>p. sum_list (map (\<lambda>q. x ! p * coeff M (int p) (int q) * x ! q)
                                        [0..<nat (ncol M)]))
                   [0..<nat (nrow M)])"

definition positive_grid :: "grid \<Rightarrow> bool" where
  "positive_grid g \<longleftrightarrow> (\<forall>r \<in> set g. \<forall>v \<in> set r. 0 < v)"

section \<open>main.py: create_spacial_affinity_kernel\<close>

text \<open>
  \<open>np.zeros((size, size))\<close> raises ValueError for a negative size. The two loops then
  assign every cell, so the result is the table of the cell values.
  \<open>distance.euclidean\<close> is the root of the sum of the squared differences. The
  division by \<open>spatial_sigma ** 2\<close> is a float division: for \<open>spatial_sigma = 0\<close> numpy
  goes on with \<open>nan\<close> or \<open>-inf\<close>, which is the outcome \<open>NonFinite\<close> here. No other check
  is made on \<open>spatial_sigma\<close> or \<open>size\<close>.
\<close>

definition euclidean :: "int \<times> int \<Rightarrow> int \<times> int \<Rightarrow> real" where
  "euclidean u v = sqrt ((real_of_int (fst u - fst v))\<^sup>2 + (real_of_int (snd u - snd v))\<^sup>2)"

definition kernel_cell :: "real \<Rightarrow> int \<Rightarrow> int \<Rightarrow> int \<Rightarrow> error + real" where
  "kernel_cell spatial_sigma size' i j =
     (if spatial_sigma\<^sup>2 = 0 then Inl NonFinite
      else Inr (exp (- 0.5 * (euclidean (i, j) (size' div 2, size' div 2))\<^sup>2 / spatial_sigma\<^sup>2)))"

definition create_spacial_affinity_kernel :: "real \<Rightarrow> int \<Rightarrow> error + grid" where
  "create_spacial_affinity_kernel spatial_sigma size' =
     (if size' < 0 then Inl ValueError
      else mapE (\<lambda>i. mapE (\<lambda>j. kernel_cell spatial_sigma size' i j) (range_list size'))
                (range_list size'))"

section \<open>main.py: refine_illumination_map_linear\<close>

text \<open>
  Lines 82 to 105 build the linear system: the two weight maps, the shape and the
  flattened copy of \<open>L\<close>, the Laplacian and \<open>A = Id + lambda_ * F\<close>.
\<close>

definition flatten :: "grid \<Rightarrow> real list" where
  "flatten g = concat g"

definition refine_system :: "grid \<Rightarrow> real \<Rightarrow> grid \<Rightarrow> real \<Rightarrow> error + (spmatrix \<times> real list)" where
  "refine_system L lambda kern eps =
     bindE (compute_smoothness_weights L 1 kern eps) (\<lambda>wx.
     bindE (compute_smoothness_weights L 0 kern eps) (\<lambda>wy.
       let n = int (nrows L); m = int (ncols L); L_1d = flatten L in
       bindE (laplacian wx wy n m) (\<lambda>F.
       bindE (linear_system lambda F) (\<lambda>A. Inr (A, L_1d)))))"

text \<open>
  Line 106: \<open>spsolve\<close> is a library call and a parameter of the model; it returns a
  vector or fails. \<open>reshape((n, m))\<close> raises ValueError when the vector does not have
  \<open>n * m\<close> elements.
\<close>

definition reshape :: "real list \<Rightarrow> nat \<Rightarrow> nat \<Rightarrow> error + grid" where
  "reshape x n m =
     (if length x \<noteq> n * m then Inl ValueError
      else Inr (map (\<lambda>i. take m (drop (i * m) x)) [0..<n]))"

text \<open>
  Line 109: \<open>np.clip(a, lo, hi)\<close> is \<open>minimum(hi, maximum(a, lo))\<close>. \<open>**\<close> on floats: a
  positive base gives the real power; base 0 gives 0, 1 or \<open>inf\<close> as the exponent is
  positive, zero or negative; a negative base gives \<open>nan\<close> unless the exponent is an
  integer.
\<close>

definition np_clip :: "real \<Rightarrow> real \<Rightarrow> real \<Rightarrow> real" where
  "np_clip v lo hi = min hi (max v lo)"

definition np_power :: "real \<Rightarrow> real \<Rightarrow> error + real" where
  "np_power b e =
     (if 0 < b then Inr (b powr e)
      else if b = 0 then (if 0 < e then Inr 0 else if e = 0 then Inr 1 else Inl NonFinite)
      else if e = of_int \<lfloor>e\<rfloor> then Inr (b powi \<lfloor>e\<rfloor>)
      else Inl NonFinite)"

definition gamma_correction :: "grid \<Rightarrow> real \<Rightarrow> real \<Rightarrow> error + grid" where
  "gamma_correction L_refined eps gamma =
     mapE (mapE (\<lambda>v. np_power (np_clip v eps 1) gamma)) L_refined"

definition refine_illumination_map_linear ::
  "(spmatrix \<Rightarrow> real list \<Rightarrow> error + real list) \<Rightarrow> grid \<Rightarrow> real \<Rightarrow> real \<Rightarrow> grid \<Rightarrow> real \<Rightarrow> error + grid" where
  "refine_illumination_map_linear spsolve L gamma lambda kern eps =
     bindE (refine_system L lambda kern eps) (\<lambda>(A, L_1d).
     bindE (spsolve A L_1d) (\<lambda>x.
     bindE (reshape x (nrows L) (ncols L)) (\<lambda>L_refined.
       gamma_correction L_refined eps gamma)))"

text \<open>
  \<open>spsolve\<close> is correct for an input of \<open>refine_illumination_map_linear\<close> when, on
  the system this input leads to, it returns a vector that solves the system.
\<close>

definition solver_correct_for ::
  "(spmatrix \<Rightarrow> real list \<Rightarrow> error + real list) \<Rightarrow> grid \<Rightarrow> real \<Rightarrow> grid \<Rightarrow> real \<Rightarrow> bool" where
  "solver_correct_for spsolve L lambda kern eps \<longleftrightarrow>
     (\<forall>A b. refine_system L lambda kern eps = Inr (A, b) \<longrightarrow> (\<exists>x. spsolve A b = Inr x \<and> solves A b x))"

text \<open>The inputs of the scenario of claim C5: a constant 4 by 4 grid and the 3 by 3 kernel
  with centre 1 and 0 elsewhere.\<close>

abbreviation grid4 :: "real \<Rightarrow> grid" where
  "grid4 v \<equiv> [[v, v, v, v], [v, v, v, v], [v, v, v, v], [v, v, v, v]]"

abbreviation peaked_kernel :: grid where
  "peaked_kernel \<equiv> [[0, 0, 0], [0, 1, 0], [0, 0, 0]]"

section \<open>WLSLoss/wlsloss.py: Standard_WLSLoss.forward\<close>

text \<open>
  The torch operations of \<open>forward\<close> can leave the finite numbers (\<open>log 0\<close>,
  \<open>0 ** negative\<close>, \<open>1 / inf\<close>), and the result depends on it, so a tensor element here
  is a real number, \<open>+inf\<close>, \<open>-inf\<close> or \<open>nan\<close>, with the IEEE 754 rules for the special
  values. Rounding, overflow of finite results and the sign of zero are not modelled
  (a zero divisor counts as \<open>+0\<close>).
\<close>

datatype fval = Fin real | PInf | NInf | NaN

fun f_neg :: "fval \<Rightarrow> fval" where
  "f_neg (Fin a) = Fin (- a)"
| "f_neg PInf = NInf"
| "f_neg NInf = PInf"
| "f_neg NaN = NaN"

fun f_add :: "fval \<Rightarrow> fval \<Rightarrow> fval" where
  "f_add (Fin a) (Fin b) = Fin (a + b)"
| "f_add NaN _ = NaN"
| "f_add _ NaN = NaN"
| "f_add PInf NInf = NaN"
| "f_add NInf PInf = NaN"
| "f_add PInf _ = PInf"
| "f_add _ PInf = PInf"
| "f_add NInf _ = NInf"
| "f_add _ NInf = NInf"

definition f_sub :: "fval \<Rightarrow> fval \<Rightarrow> fval" where
  "f_sub a b = f_add a (f_neg b)"

fun f_log :: "fval \<Rightarrow> fval" where
  "f_log (Fin a) = (if 0 < a then Fin (ln a) else if a = 0 then NInf else NaN)"
| "f_log PInf = PInf"
| "f_log NInf = NaN"
| "f_log NaN = NaN"

fun f_abs :: "fval \<Rightarrow> fval" where
  "f_abs (Fin a) = Fin \<bar>a\<bar>"
| "f_abs PInf = PInf"
| "f_abs NInf = PInf"
| "f_abs NaN = NaN"

text \<open>\<open>torch.pow(base, exponent)\<close> with a finite exponent: \<open>x ** 0 = 1\<close> for every \<open>x\<close>.\<close>

fun f_pow :: "fval \<Rightarrow> real \<Rightarrow> fval" where
  "f_pow (Fin a) e =
     (if e = 0 then Fin 1
      else if 0 < a then Fin (a powr e)
      else if a = 0 then (if 0 < e then Fin 0 else PInf)
      else if e = of_int \<lfloor>e\<rfloor> then Fin (a powi \<lfloor>e\<rfloor>)
      else NaN)"
| "f_pow PInf e = (if e = 0 then Fin 1 else if 0 < e then PInf else Fin 0)"
| "f_pow NInf e =
     (if e = 0 then Fin 1
      else if e < 0 then Fin 0
      else if e = of_int \<lfloor>e\<rfloor> \<and> odd \<lfloor>e\<rfloor> then NInf else PInf)"
| "f_pow NaN e = (if e = 0 then Fin 1 else NaN)"

fun f_div :: "fval \<Rightarrow> fval \<Rightarrow> fval" where
  "f_div (Fin a) (Fin b) =
     (if b \<noteq> 0 then Fin (a / b) else if 0 < a then PInf else if a < 0 then NInf else NaN)"
| "f_div NaN _ = NaN"
| "f_div _ NaN = NaN"
| "f_div (Fin a) PInf = Fin 0"
| "f_div (Fin a) NInf = Fin 0"
| "f_div PInf (Fin b) = (if 0 \<le> b then PInf else NInf)"
| "f_div NInf (Fin b) = (if 0 \<le> b then NInf else PInf)"
| "f_div PInf _ = NaN"
| "f_div NInf _ = NaN"

text \<open>
  A tensor of shape \<open>(c, h, w)\<close> is a list of \<open>c\<close> channels, each a list of \<open>h\<close> rows of
  \<open>w\<close> elements (torch images are channel first). \<open>xs[:k]\<close> counts a negative \<open>k\<close> from
  the end; \<open>xs[1:]\<close> drops the first element.
\<close>

type_synonym tensor = "fval list list list"

definition is_tensor :: "nat \<Rightarrow> nat \<Rightarrow> nat \<Rightarrow> 'a list list list \<Rightarrow> bool" where
  "is_tensor c h w t \<longleftrightarrow> length t = c \<and> (\<forall>ch \<in> set t. is_grid h w ch)"

definition shape_h :: "'a list list list \<Rightarrow> nat" where
  "shape_h t = (case t of [] \<Rightarrow> 0 | ch # _ \<Rightarrow> nrows ch)"

definition shape_w :: "'a list list list \<Rightarrow> nat" where
  "shape_w t = (case t of [] \<Rightarrow> 0 | ch # _ \<Rightarrow> ncols ch)"

definition py_slice_to :: "int \<Rightarrow> 'a list \<Rightarrow> 'a list" where
  "py_slice_to k xs = (if 0 \<le> k then take (nat k) xs else take (nat (int (length xs) + k)) xs)"

definition tmap :: "(fval \<Rightarrow> fval) \<Rightarrow> tensor \<Rightarrow> tensor" where
  "tmap f t = map (map (map f)) t"

definition tsub :: "tensor \<Rightarrow> tensor \<Rightarrow> tensor" where
  "tsub s t = map2 (map2 (map2 f_sub)) s t"

text \<open>
  \<open>self.epsilon\<close> and \<open>self.alpha\<close> are the constructor's arguments (defaults 0.01 and
  1.2), here the first two arguments of \<open>forward\<close>.
\<close>

definition forward :: "real \<Rightarrow> real \<Rightarrow> tensor \<Rightarrow> tensor \<times> tensor" where
  "forward epsilon alpha gray =
     (let h = int (shape_h gray); w = int (shape_w gray);
          gray_log = tmap (\<lambda>v. f_log (f_add v (Fin epsilon))) gray;
          xlog_diff = tsub (map (map (py_slice_to (w - 1))) gray_log) (map (map (drop 1)) gray_log);
          ylog_diff = tsub (map (py_slice_to (h - 1)) gray_log) (map (drop 1) gray_log);
          ax = tmap (\<lambda>d. f_div (Fin 1) (f_add (Fin epsilon) (f_pow (f_abs d) alpha))) xlog_diff;
          ay = tmap (\<lambda>d. f_div (Fin 1) (f_add (Fin epsilon) (f_pow (f_abs d) alpha))) ylog_diff
      in (ax, ay))"

text \<open>
  The weight of one pair of neighbouring elements, as the operations of \<open>forward\<close>
  compute it, and the real power \<open>d ** a\<close> of the specification's formula for a base
  \<open>d \<ge> 0\<close> (with \<open>0 ** 0 = 1\<close>).
\<close>

definition log_weight :: "real \<Rightarrow> real \<Rightarrow> fval \<Rightarrow> fval \<Rightarrow> fval" where
  "log_weight epsilon alpha u v =
     f_div (Fin 1) (f_add (Fin epsilon)
       (f_pow (f_abs (f_sub (f_log (f_add u (Fin epsilon))) (f_log (f_add v (Fin epsilon))))) alpha))"




section \<open>Properties of get_sparse_neighbor\<close>

lemma get_sparse_neighbor_list:
  assumes "0 < m"
  shows "get_sparse_neighbor p n m = Inr (nbr_list p n m)"
proof -
  have j: "0 \<le> p mod m" "p mod m < m" using assms by simp_all
  show ?thesis
    using assms j
    by (auto simp: get_sparse_neighbor_def nbr_list_def Let_def algebra_simps)
qed

lemma in_range_div:
  fixes p n m :: int
  assumes "0 < m" "0 \<le> p" "p < n * m"
  shows "0 \<le> p div m \<and> p div m < n"
proof
  show "0 \<le> p div m" using assms by (simp add: pos_imp_zdiv_nonneg_iff)
  show "p div m < n"
  proof (rule ccontr)
    assume "\<not> p div m < n"
    then have "n * m \<le> (p div m) * m" using assms(1) by (simp add: mult_right_mono)
    moreover have "0 \<le> p mod m" using assms(1) by simp
    ultimately show False using assms(3) div_mult_mod_eq[of p m] by linarith
  qed
qed

lemma cell_in_range:
  fixes k l n m :: int
  assumes "0 \<le> k" "k < n" "0 \<le> l" "l < m"
  shows "0 \<le> k * m + l \<and> k * m + l < n * m"
proof
  show "0 \<le> k * m + l" using assms by simp
  have "k * m + l < k * m + m" using assms by simp
  also have "\<dots> = (k + 1) * m" by (simp add: algebra_simps)
  also have "\<dots> \<le> n * m" using assms by (intro mult_right_mono) auto
  finally show "k * m + l < n * m" .
qed

lemma nbr_list_entry:
  assumes "0 < m" "0 \<le> p" "p < n * m" "(q, k, l, x) \<in> set (nbr_list p n m)"
  shows "0 \<le> k \<and> k < n \<and> 0 \<le> l \<and> l < m \<and> q = k * m + l \<and>
         ((x = 0 \<and> l = p mod m \<and> \<bar>k - p div m\<bar> = 1) \<or> (x = 1 \<and> k = p div m \<and> \<bar>l - p mod m\<bar> = 1))"
proof -
  have j: "0 \<le> p mod m" "p mod m < m" using assms by simp_all
  have i: "0 \<le> p div m" "p div m < n" using in_range_div[OF assms(1-3)] by simp_all
  show ?thesis using assms(4) i j
    by (auto simp: nbr_list_def Let_def split: if_splits)
qed

lemma nbr_list_keys:
  assumes "0 < m" "0 \<le> p" "p < n * m" "0 \<le> q" "q < n * m"
  shows "q \<in> keys (nbr_list p n m) \<longleftrightarrow> adjacent m p q"
proof
  assume "q \<in> keys (nbr_list p n m)"
  then obtain k l x where e: "(q, k, l, x) \<in> set (nbr_list p n m)"
    by (auto simp: keys_def)
  from nbr_list_entry[OF assms(1-3) e]
  have kl: "0 \<le> l" "l < m" "q = k * m + l"
    and c: "(l = p mod m \<and> \<bar>k - p div m\<bar> = 1) \<or> (k = p div m \<and> \<bar>l - p mod m\<bar> = 1)"
    by auto
  have "q div m = k" "q mod m = l" using kl assms(1) by simp_all
  then show "adjacent m p q" using c by (auto simp: adjacent_def)
next
  assume a: "adjacent m p q"
  have pj: "0 \<le> p mod m" "p mod m < m" using assms by simp_all
  have pi: "0 \<le> p div m" "p div m < n" using in_range_div[OF assms(1-3)] by simp_all
  have qj: "0 \<le> q mod m" "q mod m < m" using assms by simp_all
  have qi: "0 \<le> q div m" "q div m < n" using in_range_div[OF assms(1) assms(4,5)] by simp_all
  have q: "q = (q div m) * m + q mod m" by simp
  from a consider
      "q div m = p div m - 1" "q mod m = p mod m"
    | "q div m = p div m + 1" "q mod m = p mod m"
    | "q div m = p div m" "q mod m = p mod m - 1"
    | "q div m = p div m" "q mod m = p mod m + 1"
    unfolding adjacent_def by linarith
  then show "q \<in> keys (nbr_list p n m)"
  proof cases
    case 1
    then have "q = (p div m - 1) * m + p mod m" "1 \<le> p div m" using q qi by auto
    then show ?thesis by (simp add: keys_def nbr_list_def Let_def)
  next
    case 2
    then have "q = (p div m + 1) * m + p mod m" "p div m + 1 < n" using q qi by auto
    then show ?thesis by (simp add: keys_def nbr_list_def Let_def)
  next
    case 3
    then have "q = (p div m) * m + p mod m - 1" "1 \<le> p mod m" using q qj by auto
    then show ?thesis by (simp add: keys_def nbr_list_def Let_def)
  next
    case 4
    then have "q = (p div m) * m + p mod m + 1" "p mod m + 1 < m" using q qj by auto
    then show ?thesis by (simp add: keys_def nbr_list_def Let_def)
  qed
qed

lemma adjacent_sym: "adjacent m p q \<longleftrightarrow> adjacent m q p"
  unfolding adjacent_def by linarith

lemma nbr_list_distinct: "0 < m \<Longrightarrow> distinct (map fst (nbr_list p n m))"
proof -
  assume m: "0 < m"
  have j: "0 \<le> p mod m" "p mod m < m" using m by simp_all
  show ?thesis using m j by (auto simp: nbr_list_def Let_def algebra_simps)
qed

lemma nbr_list_length: "length (nbr_list p n m) \<le> 4"
  by (simp add: nbr_list_def Let_def)


text \<open>
  Claim C10. For a grid of \<open>n \<ge> 1\<close> rows and \<open>m \<ge> 1\<close> columns and a flat index
  \<open>p\<close> in \<open>[0, n * m)\<close>, \<open>get_sparse_neighbor p n m\<close> returns a dictionary of at most
  four entries with distinct keys. Every key \<open>q\<close> lies in \<open>[0, n * m)\<close>, differs from
  \<open>p\<close>, is stored with its own coordinates \<open>(q div m, q mod m)\<close>, and is at Manhattan
  distance exactly 1 from the cell of \<open>p\<close>; the direction flag is 1 exactly when the
  column differs and 0 exactly when the row differs. The neighbour relation is
  symmetric on the grid.
\<close>

theorem get_sparse_neighbor_grid:
  assumes "1 \<le> n" "1 \<le> m" "0 \<le> p" "p < n * m"
  shows "\<exists>d. get_sparse_neighbor p n m = Inr d \<and> length d \<le> 4 \<and> distinct (map fst d) \<and>
           (\<forall>(q, k, l, x) \<in> set d.
              0 \<le> q \<and> q < n * m \<and> q \<noteq> p \<and> k = q div m \<and> l = q mod m \<and>
              \<bar>q div m - p div m\<bar> + \<bar>q mod m - p mod m\<bar> = 1 \<and>
              (x = 1 \<longleftrightarrow> q mod m \<noteq> p mod m) \<and> (x = 0 \<longleftrightarrow> q div m \<noteq> p div m)) \<and>
           (\<forall>q. 0 \<le> q \<and> q < n * m \<longrightarrow>
              (q \<in> keys d \<longleftrightarrow> (\<exists>d'. get_sparse_neighbor q n m = Inr d' \<and> p \<in> keys d')))"
proof -
  have m: "0 < m" using assms by simp
  let ?d = "nbr_list p n m"
  have entries: "0 \<le> q \<and> q < n * m \<and> q \<noteq> p \<and> k = q div m \<and> l = q mod m \<and>
              \<bar>q div m - p div m\<bar> + \<bar>q mod m - p mod m\<bar> = 1 \<and>
              (x = 1 \<longleftrightarrow> q mod m \<noteq> p mod m) \<and> (x = 0 \<longleftrightarrow> q div m \<noteq> p div m)"
    if e: "(q, k, l, x) \<in> set ?d" for q k l x
  proof -
    from nbr_list_entry[OF m assms(3,4) e]
    have kl: "0 \<le> k" "k < n" "0 \<le> l" "l < m" "q = k * m + l"
      and c: "(x = 0 \<and> l = p mod m \<and> \<bar>k - p div m\<bar> = 1) \<or> (x = 1 \<and> k = p div m \<and> \<bar>l - p mod m\<bar> = 1)"
      by auto
    have dm: "q div m = k" "q mod m = l" using kl m by simp_all
    have r: "0 \<le> q \<and> q < n * m" using cell_in_range[OF kl(1-4)] kl(5) by simp
    have "q \<noteq> p" using c dm by auto
    then show ?thesis using r dm c by auto
  qed
  have sym: "q \<in> keys ?d \<longleftrightarrow> (\<exists>d'. get_sparse_neighbor q n m = Inr d' \<and> p \<in> keys d')"
    if q: "0 \<le> q \<and> q < n * m" for q
  proof -
    have "q \<in> keys ?d \<longleftrightarrow> adjacent m p q"
      using nbr_list_keys[OF m assms(3,4)] q by simp
    also have "\<dots> \<longleftrightarrow> adjacent m q p" by (rule adjacent_sym)
    also have "\<dots> \<longleftrightarrow> p \<in> keys (nbr_list q n m)"
      using nbr_list_keys[of m q n p] m q assms(3,4) by simp
    finally show ?thesis by (simp add: get_sparse_neighbor_list[OF m])
  qed
  show ?thesis
    using entries sym
    by (intro exI[of _ ?d]) (auto simp: get_sparse_neighbor_list[OF m] nbr_list_length nbr_list_distinct[OF m])
qed

theorem get_sparse_neighbor_grid_witness:
  "(1::int) \<le> 2 \<and> (1::int) \<le> 2 \<and> (0::int) \<le> 3 \<and> (3::int) < 2 * 2 \<and>
   get_sparse_neighbor 3 2 2 = Inr [(1, (0, 1, 0)), (2, (1, 0, 1))] \<and>
   (\<exists>d. get_sparse_neighbor 3 2 2 = Inr d \<and> length d \<le> 4 \<and> 1 \<in> keys d \<and>
        (\<exists>d'. get_sparse_neighbor 1 2 2 = Inr d' \<and> 3 \<in> keys d'))"
proof -
  from get_sparse_neighbor_grid[of 2 2 3]
  obtain d where d: "get_sparse_neighbor 3 2 2 = Inr d" "length d \<le> 4"
    and sym: "\<forall>q. 0 \<le> q \<and> q < 2 * 2 \<longrightarrow>
              (q \<in> keys d \<longleftrightarrow> (\<exists>d'. get_sparse_neighbor q 2 2 = Inr d' \<and> 3 \<in> keys d'))"
    by auto
  have v: "get_sparse_neighbor 3 2 2 = Inr [(1, (0, 1, 0)), (2, (1, 0, 1))]"
    by (simp add: get_sparse_neighbor_def Let_def)
  then have "1 \<in> keys d" using d by (simp add: keys_def)
  then have "\<exists>d'. get_sparse_neighbor 1 2 2 = Inr d' \<and> 3 \<in> keys d'"
    using sym by auto
  then show ?thesis using v d \<open>1 \<in> keys d\<close> by auto
qed

section \<open>Properties of the Laplacian\<close>

lemma bindE_Inr [simp]: "bindE (Inr v) f = f v"
  by (simp add: bindE_def)

lemma bindE_Inl [simp]: "bindE (Inl e) f = Inl e"
  by (simp add: bindE_def)

lemma np_index_in_range: "0 \<le> k \<Longrightarrow> k < int (length xs) \<Longrightarrow> np_index xs k = Inr (xs ! nat k)"
  by (simp add: np_index_def Let_def)

lemma get2_in_range:
  assumes "is_grid n m g" "0 \<le> k" "k < int n" "0 \<le> l" "l < int m"
  shows "get2 g k l = Inr (g ! nat k ! nat l)"
proof -
  have "nat k < length g" using assms by (simp add: is_grid_def)
  then have "length (g ! nat k) = m" using assms(1) by (simp add: is_grid_def)
  then show ?thesis using assms by (simp add: get2_def np_index_in_range is_grid_def)
qed

lemma neighbor_loop_ok:
  assumes "is_grid n m wx" "is_grid n m wy"
    and "\<forall>(q, k, l, x) \<in> set items. 0 \<le> k \<and> k < int n \<and> 0 \<le> l \<and> l < int m"
  shows "neighbor_loop wx wy p items ((row, column, data), diag) =
           Inr ((row @ map (\<lambda>_. p) items, column @ map fst items,
                 data @ map (\<lambda>(q, c). - edge_weight wx wy c) items),
                diag + sum_list (map (\<lambda>(q, c). edge_weight wx wy c) items))"
  using assms(3)
proof (induction items arbitrary: row column data diag)
  case Nil
  then show ?case by simp
next
  case (Cons it items)
  obtain q k l x where it: "it = (q, k, l, x)" by (cases it) auto
  have r: "0 \<le> k" "k < int n" "0 \<le> l" "l < int m" using Cons.prems it by auto
  have w: "(if x \<noteq> 0 then get2 wx k l else get2 wy k l) = Inr (edge_weight wx wy (k, l, x))"
    using get2_in_range[OF assms(1) r] get2_in_range[OF assms(2) r]
    by (simp add: edge_weight_def)
  have rest: "\<forall>(q, k, l, x) \<in> set items. 0 \<le> k \<and> k < int n \<and> 0 \<le> l \<and> l < int m"
    using Cons.prems by simp
  show ?case
    unfolding it neighbor_loop.simps w bindE_Inr Cons.IH[OF rest]
    by (simp add: algebra_simps)
qed

lemma nbr_list_cells:
  assumes "0 < m" "0 \<le> p" "p < n * m"
  shows "\<forall>(q, k, l, x) \<in> set (nbr_list p n m). 0 \<le> k \<and> k < n \<and> 0 \<le> l \<and> l < m"
  using nbr_list_entry[OF assms] by blast

lemma pixel_loop_ok:
  assumes "is_grid n m wx" "is_grid n m wy"
    and "\<forall>p \<in> set ps. 0 \<le> p \<and> p < int n * int m"
  shows "pixel_loop wx wy (int n) (int m) ps (row, column, data) =
           Inr (row @ map fst (concat (map (row_triples wx wy (int n) (int m)) ps)),
                column @ map (fst \<circ> snd) (concat (map (row_triples wx wy (int n) (int m)) ps)),
                data @ map (snd \<circ> snd) (concat (map (row_triples wx wy (int n) (int m)) ps)))"
  using assms(3)
proof (induction ps arbitrary: row column data)
  case Nil
  then show ?case by simp
next
  case (Cons p ps)
  have p: "0 \<le> p" "p < int n * int m" using Cons.prems by auto
  have m: "0 < int m"
  proof (rule ccontr)
    assume "\<not> 0 < int m"
    then have "int n * int m = 0" by simp
    then show False using p by linarith
  qed
  have rest: "\<forall>p \<in> set ps. 0 \<le> p \<and> p < int n * int m" using Cons.prems by simp
  have cells: "\<forall>(q, k, l, x) \<in> set (nbr_list p (int n) (int m)).
                 0 \<le> k \<and> k < int n \<and> 0 \<le> l \<and> l < int m"
    by (rule nbr_list_cells[OF m p])
  show ?case
    unfolding pixel_loop.simps get_sparse_neighbor_list[OF m] bindE_Inr
      neighbor_loop_ok[OF assms(1,2) cells]
    by (simp add: Cons.IH[OF rest] row_triples_def row_diag_def comp_def split_def)
qed


lemma zip3_maps: "zip (map fst T) (zip (map (fst \<circ> snd) T) (map (snd \<circ> snd) T)) = T"
  by (induction T) auto

lemma range_list_set: "set (range_list k) = {0..<k}"
proof -
  have "set (range_list k) = int ` {0..<nat k}" by (simp add: range_list_def)
  also have "\<dots> = {0..<k}"
    by (metis image_int_atLeastLessThan int_nat_eq atLeastLessThan_empty_iff2 image_is_empty nat_0_iff nle_le not_le of_nat_0)
  finally show ?thesis .
qed

lemma range_list_distinct: "distinct (range_list k)"
  by (simp add: range_list_def distinct_map inj_on_def)

lemma nbr_list_key_range:
  assumes "0 < m" "0 \<le> p" "p < n * m" "(q, c) \<in> set (nbr_list p n m)"
  shows "0 \<le> q \<and> q < n * m \<and> q \<noteq> p"
proof -
  obtain k l x where c: "c = (k, l, x)" by (cases c) auto
  from nbr_list_entry[OF assms(1-3) assms(4)[unfolded c]]
  have kl: "0 \<le> k" "k < n" "0 \<le> l" "l < m" "q = k * m + l"
    and d: "(l = p mod m \<and> \<bar>k - p div m\<bar> = 1) \<or> (k = p div m \<and> \<bar>l - p mod m\<bar> = 1)"
    by auto
  have dm: "q div m = k" "q mod m = l" using kl assms(1) by simp_all
  have "q \<noteq> p" using d dm by auto
  then show ?thesis using cell_in_range[OF kl(1-4)] kl(5) by simp
qed

lemma row_triples_range:
  assumes "0 < m" "0 \<le> p" "p < n * m" "(r, c, v) \<in> set (row_triples wx wy n m p)"
  shows "r = p \<and> 0 \<le> c \<and> c < n * m"
  using assms(4) nbr_list_key_range[OF assms(1-3)] assms(2,3)
  by (auto simp: row_triples_def)

lemma laplacian_ok:
  assumes "is_grid n m wx" "is_grid n m wy"
  shows "laplacian wx wy (int n) (int m) = Inr (lap_matrix wx wy (int n) (int m))"
proof -
  let ?N = "int n * int m"
  let ?T = "concat (map (row_triples wx wy (int n) (int m)) (range_list ?N))"
  have ps: "\<forall>p \<in> set (range_list ?N). 0 \<le> p \<and> p < ?N"
    by (simp add: range_list_set)
  have tr: "0 \<le> r \<and> r < ?N \<and> 0 \<le> c \<and> c < ?N" if "(r, c, v) \<in> set ?T" for r c v
  proof -
    from that obtain p where p: "p \<in> set (range_list ?N)" "(r, c, v) \<in> set (row_triples wx wy (int n) (int m) p)"
      by auto
    then have pr: "0 \<le> p" "p < ?N" using ps by auto
    have m: "0 < int m"
    proof (rule ccontr)
      assume "\<not> 0 < int m"
      then have "?N = 0" by simp
      then show False using pr by linarith
    qed
    show ?thesis using row_triples_range[OF m pr p(2)] pr by simp
  qed
  have rows: "\<not> (\<exists>r \<in> set (map fst ?T). r < 0 \<or> ?N \<le> r)"
    using tr by fastforce
  have cols: "\<not> (\<exists>c \<in> set (map (fst \<circ> snd) ?T). c < 0 \<or> ?N \<le> c)"
    using tr by fastforce
  have "0 \<le> ?N" by (intro mult_nonneg_nonneg) simp_all
  then have N: "\<not> ?N < 0" by linarith
  show ?thesis
    unfolding laplacian_def pixel_loop_ok[OF assms ps] bindE_Inr
    using rows cols N
    by (simp add: csr_matrix_def zip3_maps lap_matrix_def del: set_concat set_map)
qed


lemma sum_list_concat_map:
  "sum_list (map f (concat xss)) = sum_list (map (\<lambda>xs. sum_list (map f xs)) xss)"
  by (induction xss) auto

lemma sum_list_single_index:
  "distinct xs \<Longrightarrow> sum_list (map (\<lambda>p. if p = i then g p else (0::real)) xs) = (if i \<in> set xs then g i else 0)"
  by (induction xs) auto

lemma sum_list_all_zero: "(\<forall>x \<in> set xs. f x = (0::real)) \<Longrightarrow> sum_list (map f xs) = 0"
  by (induction xs) auto

lemma sum_list_single_key:
  "distinct (map fst xs) \<Longrightarrow> (q, c) \<in> set xs \<Longrightarrow>
     sum_list (map (\<lambda>(q', c'). if q' = q then g c' else (0::real)) xs) = g c"
proof (induction xs)
  case Nil
  then show ?case by simp
next
  case (Cons a xs)
  show ?case
  proof (cases "a = (q, c)")
    case True
    then have "\<forall>x \<in> set xs. (case x of (q', c') \<Rightarrow> if q' = q then g c' else 0) = 0"
      using Cons.prems(1) by force
    then show ?thesis using True by (simp add: sum_list_all_zero)
  next
    case False
    then have "(q, c) \<in> set xs" using Cons.prems(2) by simp
    moreover from this have "q \<in> fst ` set xs" by force
    then have "fst a \<noteq> q" using Cons.prems(1) by auto
    ultimately show ?thesis using Cons by (cases a) auto
  qed
qed




lemma row_triples_at:
  "sum_list (map (\<lambda>(r, c, v). if r = i \<and> c = j then v else 0) (row_triples wx wy n m p))
     = (if p = i then sum_list (map (\<lambda>(q, c). if q = j then - edge_weight wx wy c else 0) (nbr_list p n m))
                      + (if p = j then row_diag wx wy n m p else 0)
        else 0)"
proof (cases "p = i")
  case True
  then show ?thesis by (simp add: row_triples_def comp_def split_def cong: if_cong)
next
  case False
  then show ?thesis by (auto simp: row_triples_def intro!: sum_list_all_zero)
qed

lemma lap_matrix_coeff:
  assumes "0 \<le> p" "p < n * m"
  shows "coeff (lap_matrix wx wy n m) p j =
           sum_list (map (\<lambda>(q, c). if q = j then - edge_weight wx wy c else 0) (nbr_list p n m))
             + (if p = j then row_diag wx wy n m p else 0)"
proof -
  have pin: "p \<in> set (range_list (n * m))" using assms by (simp add: range_list_set)
  show ?thesis
    using pin
    by (simp add: lap_matrix_def coeff_def sum_list_concat_map comp_def row_triples_at
        sum_list_single_index[OF range_list_distinct])
qed

lemma lap_matrix_diag:
  assumes "0 < m" "0 \<le> p" "p < n * m"
  shows "coeff (lap_matrix wx wy n m) p p = row_diag wx wy n m p"
proof -
  have "\<forall>x \<in> set (nbr_list p n m). (case x of (q, c) \<Rightarrow> if q = p then - edge_weight wx wy c else 0) = 0"
    using nbr_list_key_range[OF assms] by auto
  then show ?thesis unfolding lap_matrix_coeff[OF assms(2,3)] by (simp add: sum_list_all_zero)
qed

lemma lap_matrix_off:
  assumes "0 < m" "0 \<le> p" "p < n * m" "(q, c) \<in> set (nbr_list p n m)"
  shows "coeff (lap_matrix wx wy n m) p q = - edge_weight wx wy c"
proof -
  have "q \<noteq> p" using nbr_list_key_range[OF assms] by simp
  then show ?thesis
    unfolding lap_matrix_coeff[OF assms(2,3)]
    by (simp add: sum_list_single_key[OF nbr_list_distinct[OF assms(1)] assms(4), of "\<lambda>c. - edge_weight wx wy c"])
qed

lemma lap_matrix_zero:
  assumes "0 \<le> p" "p < n * m" "q \<noteq> p" "q \<notin> keys (nbr_list p n m)"
  shows "coeff (lap_matrix wx wy n m) p q = 0"
proof -
  have "\<forall>x \<in> set (nbr_list p n m). (case x of (q', c) \<Rightarrow> if q' = q then - edge_weight wx wy c else 0) = 0"
    using assms(4) by (force simp: keys_def)
  then show ?thesis unfolding lap_matrix_coeff[OF assms(1,2)] using assms(3) by (simp add: sum_list_all_zero)
qed

lemma lap_matrix_offdiag_sum:
  fixes h :: "real \<Rightarrow> real"
  assumes "0 < m" "0 \<le> p" "p < n * m" "h 0 = 0"
  shows "(\<Sum>q \<in> {0..<n * m} - {p}. h (coeff (lap_matrix wx wy n m) p q))
           = sum_list (map (\<lambda>(q, c). h (- edge_weight wx wy c)) (nbr_list p n m))"
proof -
  let ?d = "nbr_list p n m"
  let ?F = "lap_matrix wx wy n m"
  have dist: "distinct ?d" "inj_on fst (set ?d)"
    using nbr_list_distinct[OF assms(1), of p n] by (simp_all add: distinct_map)
  have sub: "keys ?d \<subseteq> {0..<n * m} - {p}"
    using nbr_list_key_range[OF assms(1-3)] by (fastforce simp: keys_def)
  have "(\<Sum>q \<in> {0..<n * m} - {p}. h (coeff ?F p q)) = (\<Sum>q \<in> keys ?d. h (coeff ?F p q))"
    using sub lap_matrix_zero[OF assms(2,3)] assms(4)
    by (intro sum.mono_neutral_right) auto
  also have "\<dots> = (\<Sum>e \<in> set ?d. h (coeff ?F p (fst e)))"
    unfolding keys_def by (simp add: sum.reindex[OF dist(2)])
  also have "\<dots> = (\<Sum>e \<in> set ?d. case e of (q, c) \<Rightarrow> h (- edge_weight wx wy c))"
    using lap_matrix_off[OF assms(1-3)] by (intro sum.cong) auto
  also have "\<dots> = sum_list (map (\<lambda>(q, c). h (- edge_weight wx wy c)) ?d)"
    by (simp add: sum_list_distinct_conv_sum_set[OF dist(1)])
  finally show ?thesis .
qed

lemma grid_cols_pos:
  fixes n m :: nat
  assumes "0 \<le> p" "p < int n * int m"
  shows "0 < int m"
proof (rule ccontr)
  assume "\<not> 0 < int m"
  then have "int n * int m = 0" by simp
  then show False using assms by linarith
qed




section \<open>Strictly diagonally dominant systems have exactly one solution\<close>

lemma dominant_kernel:
  assumes fin: "finite S" and dom: "dominant S A"
    and hom: "\<forall>i \<in> S. (\<Sum>j \<in> S. A i j * x j) = 0"
  shows "\<forall>i \<in> S. x i = 0"
proof (cases "S = {}")
  case True
  then show ?thesis by simp
next
  case False
  define M where "M = Max ((\<lambda>j. \<bar>x j\<bar>) ` S)"
  have "M \<in> (\<lambda>j. \<bar>x j\<bar>) ` S"
    unfolding M_def using fin False by (intro Max_in) auto
  then obtain i where iM: "i \<in> S" "\<bar>x i\<bar> = M" by auto
  have "\<forall>j \<in> S. \<bar>x j\<bar> \<le> M"
    unfolding M_def using fin by (auto intro: Max_ge)
  then have i: "i \<in> S" "\<forall>j \<in> S. \<bar>x j\<bar> \<le> \<bar>x i\<bar>"
    using iM by simp_all
  have "(\<Sum>j \<in> S. A i j * x j) = A i i * x i + (\<Sum>j \<in> S - {i}. A i j * x j)"
    using fin i(1) by (rule sum.remove)
  then have "A i i * x i = - (\<Sum>j \<in> S - {i}. A i j * x j)"
    using hom i(1) by simp
  then have "\<bar>A i i\<bar> * \<bar>x i\<bar> = \<bar>\<Sum>j \<in> S - {i}. A i j * x j\<bar>"
    by (metis abs_minus_cancel abs_mult)
  also have "\<dots> \<le> (\<Sum>j \<in> S - {i}. \<bar>A i j * x j\<bar>)" by (rule sum_abs)
  also have "\<dots> \<le> (\<Sum>j \<in> S - {i}. \<bar>A i j\<bar> * \<bar>x i\<bar>)"
    using i(2) by (intro sum_mono) (auto simp: abs_mult intro: mult_left_mono)
  also have "\<dots> = (\<Sum>j \<in> S - {i}. \<bar>A i j\<bar>) * \<bar>x i\<bar>"
    by (simp add: sum_distrib_right)
  finally have le: "\<bar>A i i\<bar> * \<bar>x i\<bar> \<le> (\<Sum>j \<in> S - {i}. \<bar>A i j\<bar>) * \<bar>x i\<bar>" .
  have lt: "(\<Sum>j \<in> S - {i}. \<bar>A i j\<bar>) < \<bar>A i i\<bar>" using dom i(1) by (simp add: dominant_def)
  have "\<bar>x i\<bar> = 0"
  proof (rule ccontr)
    assume "\<bar>x i\<bar> \<noteq> 0"
    then have "0 < \<bar>x i\<bar>" by simp
    then have "(\<Sum>j \<in> S - {i}. \<bar>A i j\<bar>) * \<bar>x i\<bar> < \<bar>A i i\<bar> * \<bar>x i\<bar>"
      using lt by (simp add: mult_strict_right_mono)
    then show False using le by simp
  qed
  then show ?thesis using i(2) by auto
qed


lemma dominant_solvable:
  assumes "finite S" "dominant S A"
  shows "\<exists>x. \<forall>i \<in> S. (\<Sum>j \<in> S. A i j * x j) = b i"
  using assms
proof (induction S arbitrary: A b rule: finite_induct)
  case empty
  then show ?case by simp
next
  case (insert k S)
  define d where "d = A k k"
  define R where "R = (\<Sum>j \<in> S. \<bar>A k j\<bar>)"
  have Sk: "insert k S - {k} = S" using insert.hyps(2) by auto
  have R: "R < \<bar>d\<bar>" using insert.prems unfolding dominant_def R_def d_def
    by (metis Sk insertI1)
  have R0: "0 \<le> R" unfolding R_def by (simp add: sum_nonneg)
  have d0: "d \<noteq> 0" "0 < \<bar>d\<bar>" using R R0 by auto
  define A' where "A' = (\<lambda>i j. A i j - A i k * A k j / d)"
  define b' where "b' = (\<lambda>i. b i - A i k * b k / d)"
  have "dominant S A'"
    unfolding dominant_def
  proof
    fix i assume i: "i \<in> S"
    then have ik: "i \<noteq> k" using insert.hyps(2) by auto
    define c where "c = \<bar>A i k\<bar> / \<bar>d\<bar>"
    have c0: "0 \<le> c" unfolding c_def by simp
    have split: "insert k S - {i} = insert k (S - {i})" using ik by auto
    have "(\<Sum>j \<in> insert k S - {i}. \<bar>A i j\<bar>) = \<bar>A i k\<bar> + (\<Sum>j \<in> S - {i}. \<bar>A i j\<bar>)"
      unfolding split using insert.hyps by (intro sum.insert) auto
    then have rowi: "\<bar>A i k\<bar> + (\<Sum>j \<in> S - {i}. \<bar>A i j\<bar>) < \<bar>A i i\<bar>"
      using insert.prems i unfolding dominant_def by (metis insertI2)
    have Rsplit: "R = \<bar>A k i\<bar> + (\<Sum>j \<in> S - {i}. \<bar>A k j\<bar>)"
      unfolding R_def using insert.hyps(1) i by (rule sum.remove)
    have cR: "c * R \<le> \<bar>A i k\<bar>"
    proof -
      have "c * R \<le> c * \<bar>d\<bar>" using R c0 by (intro mult_left_mono) auto
      also have "\<dots> = \<bar>A i k\<bar>" using d0 by (simp add: c_def)
      finally show ?thesis .
    qed
    have bound: "\<bar>A' i j\<bar> \<le> \<bar>A i j\<bar> + c * \<bar>A k j\<bar>" for j
    proof -
      have "\<bar>A' i j\<bar> \<le> \<bar>A i j\<bar> + \<bar>A i k * A k j / d\<bar>"
        unfolding A'_def by (rule abs_triangle_ineq4)
      also have "\<bar>A i k * A k j / d\<bar> = c * \<bar>A k j\<bar>"
        by (simp add: c_def abs_mult)
      finally show ?thesis .
    qed
    have "(\<Sum>j \<in> S - {i}. \<bar>A' i j\<bar>) \<le> (\<Sum>j \<in> S - {i}. \<bar>A i j\<bar> + c * \<bar>A k j\<bar>)"
      by (intro sum_mono bound)
    also have "\<dots> = (\<Sum>j \<in> S - {i}. \<bar>A i j\<bar>) + c * (\<Sum>j \<in> S - {i}. \<bar>A k j\<bar>)"
      by (simp add: sum.distrib sum_distrib_left)
    also have "\<dots> = (\<Sum>j \<in> S - {i}. \<bar>A i j\<bar>) + c * R - c * \<bar>A k i\<bar>"
      unfolding Rsplit by (simp add: algebra_simps)
    also have "\<dots> \<le> (\<Sum>j \<in> S - {i}. \<bar>A i j\<bar>) + \<bar>A i k\<bar> - c * \<bar>A k i\<bar>"
      using cR by simp
    also have "\<dots> < \<bar>A i i\<bar> - c * \<bar>A k i\<bar>" using rowi by simp
    also have "\<dots> \<le> \<bar>A' i i\<bar>"
    proof -
      have "\<bar>A i i\<bar> = \<bar>A' i i + A i k * A k i / d\<bar>" by (simp add: A'_def)
      also have "\<dots> \<le> \<bar>A' i i\<bar> + \<bar>A i k * A k i / d\<bar>" by (rule abs_triangle_ineq)
      also have "\<bar>A i k * A k i / d\<bar> = c * \<bar>A k i\<bar>" by (simp add: c_def abs_mult)
      finally show ?thesis by simp
    qed
    finally show "(\<Sum>j \<in> S - {i}. \<bar>A' i j\<bar>) < \<bar>A' i i\<bar>" .
  qed
  from insert.IH[OF this, of b'] obtain y where y: "\<forall>i \<in> S. (\<Sum>j \<in> S. A' i j * y j) = b' i"
    by blast
  define t where "t = (b k - (\<Sum>j \<in> S. A k j * y j)) / d"
  define x where "x = y(k := t)"
  have xs: "(\<Sum>j \<in> S. A i j * x j) = (\<Sum>j \<in> S. A i j * y j)" for i
    using insert.hyps(2) by (intro sum.cong) (auto simp: x_def)
  have full: "(\<Sum>j \<in> insert k S. A i j * x j) = A i k * t + (\<Sum>j \<in> S. A i j * y j)" for i
    using insert.hyps by (simp add: xs) (simp add: x_def)
  have "(\<Sum>j \<in> insert k S. A i j * x j) = b i" if i: "i \<in> insert k S" for i
  proof (cases "i = k")
    case True
    then show ?thesis unfolding full using d0 by (simp add: t_def d_def[symmetric])
  next
    case False
    then have iS: "i \<in> S" using i by simp
    have "(\<Sum>j \<in> S. A' i j * y j) = (\<Sum>j \<in> S. A i j * y j) - (A i k / d) * (\<Sum>j \<in> S. A k j * y j)"
      by (simp add: A'_def left_diff_distrib sum_subtractf sum_distrib_left mult.assoc)
    then have P: "(\<Sum>j \<in> S. A i j * y j) = b' i + (A i k / d) * (\<Sum>j \<in> S. A k j * y j)"
      using y iS by simp
    have "A i k * t = A i k * b k / d - (A i k / d) * (\<Sum>j \<in> S. A k j * y j)"
      unfolding t_def by (simp add: diff_divide_distrib right_diff_distrib)
    then show ?thesis unfolding full P by (simp add: b'_def)
  qed
  then show ?case by blast
qed

lemma dominant_unique_solution:
  assumes "finite S" "dominant S A"
  shows "\<exists>x. (\<forall>i \<in> S. (\<Sum>j \<in> S. A i j * x j) = b i) \<and>
             (\<forall>y. (\<forall>i \<in> S. (\<Sum>j \<in> S. A i j * y j) = b i) \<longrightarrow> (\<forall>i \<in> S. y i = x i))"
proof -
  from dominant_solvable[OF assms, of b] obtain x where x: "\<forall>i \<in> S. (\<Sum>j \<in> S. A i j * x j) = b i"
    by blast
  have "\<forall>i \<in> S. y i = x i" if y: "\<forall>i \<in> S. (\<Sum>j \<in> S. A i j * y j) = b i" for y
  proof -
    have "\<forall>i \<in> S. (\<Sum>j \<in> S. A i j * (y j - x j)) = 0"
      using x y by (simp add: right_diff_distrib sum_subtractf)
    from dominant_kernel[OF assms this] show ?thesis by simp
  qed
  then show ?thesis using x by blast
qed

section \<open>The linear system of refine_illumination_map_linear\<close>

lemma coeff_diags_ones:
  "coeff (diags_ones k) i j = (if i = j \<and> 0 \<le> i \<and> i < k then 1 else 0)"
proof -
  have "sum_list (map (\<lambda>(r, c, v). if r = i \<and> c = j then v else 0) (map (\<lambda>p. (p, p, 1)) xs))
          = sum_list (map (\<lambda>p. if p = i then (if i = j then 1 else (0::real)) else 0) xs)" for xs
    by (induction xs) auto
  then have "coeff (diags_ones k) i j
          = sum_list (map (\<lambda>p. if p = i then (if i = j then 1 else 0) else 0) (range_list k))"
    by (simp add: coeff_def diags_ones_def)
  also have "\<dots> = (if i \<in> set (range_list k) then (if i = j then 1 else 0) else 0)"
    by (rule sum_list_single_index[OF range_list_distinct])
  finally show ?thesis by (auto simp: range_list_set)
qed

lemma coeff_sp_scale: "coeff (sp_scale c M) i j = c * coeff M i j"
proof -
  have "sum_list (map (\<lambda>(r, c', v). if r = i \<and> c' = j then v else 0) (map (\<lambda>(r, c', v). (r, c', c * v)) xs))
          = c * sum_list (map (\<lambda>(r, c', v). if r = i \<and> c' = j then v else 0) xs)" for xs
    by (induction xs) (auto simp: algebra_simps)
  then show ?thesis by (simp add: coeff_def sp_scale_def)
qed

lemma coeff_sp_add:
  "sp_add A B = Inr C \<Longrightarrow> coeff C i j = coeff A i j + coeff B i j"
  by (auto simp: sp_add_def coeff_def split: if_splits)

lemma linear_system_ok:
  "\<exists>A. linear_system lambda (lap_matrix wx wy (int n) (int m)) = Inr A \<and>
        nrow A = int n * int m \<and> ncol A = int n * int m \<and>
        (\<forall>p q. coeff A p q = (if p = q \<and> 0 \<le> p \<and> p < int n * int m then 1 else 0)
                               + lambda * coeff (lap_matrix wx wy (int n) (int m)) p q)"
proof -
  have N: "0 \<le> int n * int m" by (intro mult_nonneg_nonneg) simp_all
  then have mx: "max (int n * int m) 0 = int n * int m" by simp
  let ?F = "lap_matrix wx wy (int n) (int m)"
  have "sp_add (diags_ones (nrow ?F)) (sp_scale lambda ?F)
          = Inr ((diags_ones (nrow ?F))\<lparr>entries := entries (diags_ones (nrow ?F)) @ entries (sp_scale lambda ?F)\<rparr>)"
    by (simp add: sp_add_def diags_ones_def sp_scale_def lap_matrix_def mx)
  then obtain A where A: "linear_system lambda ?F = Inr A"
    and sh: "nrow A = int n * int m" "ncol A = int n * int m"
    by (simp add: linear_system_def diags_ones_def lap_matrix_def mx)
  have "coeff A p q = (if p = q \<and> 0 \<le> p \<and> p < int n * int m then 1 else 0) + lambda * coeff ?F p q" for p q
    using coeff_sp_add[OF A[unfolded linear_system_def], of p q]
    by (simp add: coeff_diags_ones coeff_sp_scale lap_matrix_def)
  then show ?thesis using A sh by blast
qed


lemma edge_weight_pos:
  assumes "is_grid n m wx" "is_grid n m wy" "positive_grid wx" "positive_grid wy"
    and "0 \<le> k" "k < int n" "0 \<le> l" "l < int m"
  shows "0 < edge_weight wx wy (k, l, x)"
proof -
  have cell: "0 < g ! nat k ! nat l" if g: "is_grid n m g" "positive_grid g" for g :: grid
  proof -
    have k: "nat k < length g" using g(1) assms(5,6) by (simp add: is_grid_def)
    then have r: "g ! nat k \<in> set g" by simp
    then have "length (g ! nat k) = m" using g(1) by (simp add: is_grid_def)
    then have "g ! nat k ! nat l \<in> set (g ! nat k)" using assms(7,8) by simp
    then show ?thesis using g(2) r by (auto simp: positive_grid_def)
  qed
  show ?thesis using cell[OF assms(1,3)] cell[OF assms(2,4)] by (simp add: edge_weight_def)
qed

lemma nbr_weights_pos:
  assumes "is_grid n m wx" "is_grid n m wy" "positive_grid wx" "positive_grid wy"
    and "0 \<le> p" "p < int n * int m" "(q, c) \<in> set (nbr_list p (int n) (int m))"
  shows "0 < edge_weight wx wy c"
proof -
  obtain k l x where c: "c = (k, l, x)" by (cases c) auto
  have m: "0 < int m" by (rule grid_cols_pos[OF assms(5,6)])
  from nbr_list_entry[OF m assms(5,6) assms(7)[unfolded c]]
  have "0 \<le> k" "k < int n" "0 \<le> l" "l < int m" by auto
  from edge_weight_pos[OF assms(1-4) this] show ?thesis by (simp add: c)
qed

lemma row_diag_nonneg:
  assumes "is_grid n m wx" "is_grid n m wy" "positive_grid wx" "positive_grid wy"
    and "0 \<le> p" "p < int n * int m"
  shows "0 \<le> row_diag wx wy (int n) (int m) p"
  unfolding row_diag_def
  using nbr_weights_pos[OF assms]
  by (intro sum_list_nonneg) (auto simp: less_imp_le)

lemma system_dominant:
  assumes "is_grid n m wx" "is_grid n m wy" "positive_grid wx" "positive_grid wy"
    and "0 \<le> lambda"
    and A: "\<forall>p q. coeff A p q = (if p = q \<and> 0 \<le> p \<and> p < int n * int m then 1 else 0)
                               + lambda * coeff (lap_matrix wx wy (int n) (int m)) p q"
    and p: "0 \<le> p" "p < int n * int m"
  shows "(\<Sum>q \<in> {0..<int n * int m} - {p}. \<bar>coeff A p q\<bar>) = lambda * row_diag wx wy (int n) (int m) p"
    and "coeff A p p = 1 + lambda * row_diag wx wy (int n) (int m) p"
proof -
  let ?F = "lap_matrix wx wy (int n) (int m)"
  let ?N = "int n * int m"
  have m: "0 < int m" by (rule grid_cols_pos[OF p])
  have "(\<Sum>q \<in> {0..<?N} - {p}. \<bar>coeff A p q\<bar>) = (\<Sum>q \<in> {0..<?N} - {p}. \<bar>lambda * coeff ?F p q\<bar>)"
    by (intro sum.cong) (auto simp: A)
  also have "\<dots> = sum_list (map (\<lambda>(q, c). \<bar>lambda * (- edge_weight wx wy c)\<bar>) (nbr_list p (int n) (int m)))"
    using lap_matrix_offdiag_sum[OF m p, of "\<lambda>v. \<bar>lambda * v\<bar>" wx wy] by simp
  also have "\<dots> = sum_list (map (\<lambda>(q, c). lambda * edge_weight wx wy c) (nbr_list p (int n) (int m)))"
  proof (intro arg_cong[where f = sum_list] map_cong refl)
    fix e assume e: "e \<in> set (nbr_list p (int n) (int m))"
    obtain q c where qc: "e = (q, c)" by (cases e) auto
    have "0 < edge_weight wx wy c" using nbr_weights_pos[OF assms(1-4) p] e qc by simp
    then show "(case e of (q, c) \<Rightarrow> \<bar>lambda * (- edge_weight wx wy c)\<bar>)
                 = (case e of (q, c) \<Rightarrow> lambda * edge_weight wx wy c)"
      using assms(5) by (simp add: qc abs_mult)
  qed
  also have "\<dots> = lambda * row_diag wx wy (int n) (int m) p"
    unfolding row_diag_def by (simp add: sum_list_const_mult split_def)
  finally show "(\<Sum>q \<in> {0..<?N} - {p}. \<bar>coeff A p q\<bar>) = lambda * row_diag wx wy (int n) (int m) p" .
  show "coeff A p p = 1 + lambda * row_diag wx wy (int n) (int m) p"
    using p by (simp add: A lap_matrix_diag[OF m p])
qed

lemma matvec_nth:
  assumes "p < nat (nrow A)"
  shows "matvec A x ! p = (\<Sum>q \<in> {0..<ncol A}. coeff A (int p) q * x ! nat q)"
proof -
  have "matvec A x ! p = sum_list (map (\<lambda>q. coeff A (int p) (int q) * x ! q) [0..<nat (ncol A)])"
    using assms by (simp add: matvec_def)
  also have "\<dots> = (\<Sum>q \<in> {0..<nat (ncol A)}. coeff A (int p) (int q) * x ! q)"
    by (simp add: interv_sum_list_conv_sum_set_nat)
  also have "\<dots> = (\<Sum>q \<in> {0..<ncol A}. coeff A (int p) q * x ! nat q)"
    by (rule sum.reindex_bij_witness[where i = nat and j = int]) auto
  finally show ?thesis .
qed

lemma solves_iff:
  assumes "nrow A = N" "ncol A = N" "length b = nat N"
  shows "solves A b x \<longleftrightarrow>
           length x = nat N \<and>
           (\<forall>p \<in> {0..<N}. (\<Sum>q \<in> {0..<N}. coeff A p q * x ! nat q) = b ! nat p)"
proof -
  have len: "length (matvec A x) = nat N" using assms by (simp add: matvec_def)
  have "matvec A x = b \<longleftrightarrow> (\<forall>p < nat N. matvec A x ! p = b ! p)"
    using len assms(3) by (auto simp: list_eq_iff_nth_eq)
  also have "\<dots> \<longleftrightarrow> (\<forall>p < nat N. (\<Sum>q \<in> {0..<N}. coeff A (int p) q * x ! nat q) = b ! p)"
    using matvec_nth[of _ A x] assms by simp
  also have "\<dots> \<longleftrightarrow> (\<forall>p \<in> {0..<N}. (\<Sum>q \<in> {0..<N}. coeff A p q * x ! nat q) = b ! nat p)"
  proof
    assume h: "\<forall>p < nat N. (\<Sum>q \<in> {0..<N}. coeff A (int p) q * x ! nat q) = b ! p"
    show "\<forall>p \<in> {0..<N}. (\<Sum>q \<in> {0..<N}. coeff A p q * x ! nat q) = b ! nat p"
    proof
      fix p assume "p \<in> {0..<N}"
      then have "nat p < nat N" "int (nat p) = p" by auto
      then show "(\<Sum>q \<in> {0..<N}. coeff A p q * x ! nat q) = b ! nat p" using h by metis
    qed
  next
    assume h: "\<forall>p \<in> {0..<N}. (\<Sum>q \<in> {0..<N}. coeff A p q * x ! nat q) = b ! nat p"
    show "\<forall>p < nat N. (\<Sum>q \<in> {0..<N}. coeff A (int p) q * x ! nat q) = b ! p"
    proof (intro allI impI)
      fix p assume "p < nat N"
      then have "int p \<in> {0..<N}" by auto
      from h[rule_format, OF this] show "(\<Sum>q \<in> {0..<N}. coeff A (int p) q * x ! nat q) = b ! p" by simp
    qed
  qed
  finally show ?thesis by (simp add: solves_def assms)
qed

lemma dominant_system_unique:
  assumes sh: "nrow A = N" "ncol A = N" and b: "length b = nat N"
    and dom: "dominant {0..<N} (coeff A)"
  shows "\<exists>x. solves A b x \<and> (\<forall>y. solves A b y \<longrightarrow> y = x)"
proof -
  from dominant_unique_solution[OF _ dom, of "\<lambda>p. b ! nat p"]
  obtain f where f: "\<forall>i \<in> {0..<N}. (\<Sum>j \<in> {0..<N}. coeff A i j * f j) = b ! nat i"
    and u: "\<And>g. \<forall>i \<in> {0..<N}. (\<Sum>j \<in> {0..<N}. coeff A i j * g j) = b ! nat i \<Longrightarrow> \<forall>i \<in> {0..<N}. g i = f i"
    by auto
  define x where "x = map (\<lambda>q. f (int q)) [0..<nat N]"
  have xn: "x ! nat q = f q" if "q \<in> {0..<N}" for q
    using that by (simp add: x_def)
  have "(\<Sum>j \<in> {0..<N}. coeff A i j * x ! nat j) = (\<Sum>j \<in> {0..<N}. coeff A i j * f j)" for i
    by (intro sum.cong) (auto simp: xn)
  then have sx: "solves A b x"
    unfolding solves_iff[OF sh b] using f by (simp add: x_def)
  have "y = x" if y: "solves A b y" for y
  proof -
    have ly: "length y = nat N"
      and ey: "\<forall>p \<in> {0..<N}. (\<Sum>q \<in> {0..<N}. coeff A p q * y ! nat q) = b ! nat p"
      using y unfolding solves_iff[OF sh b] by auto
    from u[of "\<lambda>q. y ! nat q", OF ey] have yf: "\<forall>i \<in> {0..<N}. y ! nat i = f i" .
    show ?thesis
    proof (rule nth_equalityI)
      show "length y = length x" using ly by (simp add: x_def)
      fix i assume "i < length y"
      then have i: "int i \<in> {0..<N}" using ly by auto
      from yf[rule_format, OF i] xn[OF i] show "y ! i = x ! i" by simp
    qed
  qed
  then show ?thesis using sx by blast
qed


lemma lap_matrix_off_nonpos:
  assumes "is_grid n m wx" "is_grid n m wy" "positive_grid wx" "positive_grid wy"
    and p: "0 \<le> p" "p < int n * int m" and q: "q \<noteq> p"
  shows "coeff (lap_matrix wx wy (int n) (int m)) p q \<le> 0"
proof (cases "q \<in> keys (nbr_list p (int n) (int m))")
  case True
  then obtain c where c: "(q, c) \<in> set (nbr_list p (int n) (int m))"
    by (auto simp: keys_def)
  have m: "0 < int m" by (rule grid_cols_pos[OF p])
  show ?thesis
    using lap_matrix_off[OF m p c, of wx wy] nbr_weights_pos[OF assms(1-4) p c] by simp
next
  case False
  then show ?thesis using lap_matrix_zero[OF p q, of wx wy] by simp
qed

text \<open>
  Claim C1, as amended. For weight maps \<open>wx\<close>, \<open>wy\<close> of shape \<open>(n, m)\<close> with strictly
  positive entries, the assembled matrix \<open>F\<close> has a non-negative diagonal and
  non-positive off-diagonal coefficients, and for every \<open>lambda \<ge> 0\<close> the matrix
  \<open>A = I + lambda * F\<close> is strictly row diagonally dominant with a positive diagonal.
  Hence \<open>A x = b\<close> has exactly one solution for every right-hand side \<open>b\<close> of length
  \<open>n * m\<close>, in particular for the flattened luminance map. Symmetry and positive
  semi-definiteness are not claimed: the coefficient at \<open>(p, q)\<close> is minus the weight
  stored at the neighbour \<open>q\<close>, while the one at \<open>(q, p)\<close> is minus the weight at \<open>p\<close>.
\<close>

theorem linear_system_unique_solution:
  assumes "is_grid n m wx" "is_grid n m wy" "positive_grid wx" "positive_grid wy"
    and "0 \<le> lambda" and "length b = n * m"
  shows "\<exists>F A. laplacian wx wy (int n) (int m) = Inr F \<and> linear_system lambda F = Inr A \<and>
           (\<forall>p \<in> {0..<int n * int m}.
              0 \<le> coeff F p p \<and>
              (\<forall>q \<in> {0..<int n * int m} - {p}. coeff F p q \<le> 0) \<and>
              (\<Sum>q \<in> {0..<int n * int m} - {p}. \<bar>coeff A p q\<bar>) < coeff A p p) \<and>
           (\<exists>x. solves A b x \<and> (\<forall>y. solves A b y \<longrightarrow> y = x))"
proof -
  let ?N = "int n * int m"
  let ?F = "lap_matrix wx wy (int n) (int m)"
  from linear_system_ok[of lambda wx wy n m] obtain A
    where A: "linear_system lambda ?F = Inr A" and sh: "nrow A = ?N" "ncol A = ?N"
      and cA: "\<forall>p q. coeff A p q = (if p = q \<and> 0 \<le> p \<and> p < ?N then 1 else 0) + lambda * coeff ?F p q"
    by blast
  have rows: "0 \<le> coeff ?F p p \<and> (\<forall>q \<in> {0..<?N} - {p}. coeff ?F p q \<le> 0) \<and>
              (\<Sum>q \<in> {0..<?N} - {p}. \<bar>coeff A p q\<bar>) < coeff A p p"
    if "p \<in> {0..<?N}" for p
  proof -
    have p: "0 \<le> p" "p < ?N" using that by auto
    have m: "0 < int m" by (rule grid_cols_pos[OF p])
    have d: "0 \<le> row_diag wx wy (int n) (int m) p"
      by (rule row_diag_nonneg[OF assms(1-4) p])
    have "0 \<le> coeff ?F p p" using d by (simp add: lap_matrix_diag[OF m p])
    moreover have "\<forall>q \<in> {0..<?N} - {p}. coeff ?F p q \<le> 0"
      using lap_matrix_off_nonpos[OF assms(1-4) p] by auto
    moreover have "(\<Sum>q \<in> {0..<?N} - {p}. \<bar>coeff A p q\<bar>) < coeff A p p"
      unfolding system_dominant[OF assms(1-5) cA p] by simp
    ultimately show ?thesis by blast
  qed
  have "dominant {0..<?N} (coeff A)"
    unfolding dominant_def
  proof
    fix p assume p: "p \<in> {0..<?N}"
    have "(\<Sum>q \<in> {0..<?N} - {p}. \<bar>coeff A p q\<bar>) < coeff A p p" using rows[OF p] by simp
    then show "(\<Sum>q \<in> {0..<?N} - {p}. \<bar>coeff A p q\<bar>) < \<bar>coeff A p p\<bar>" by linarith
  qed
  moreover have "length b = nat ?N" using assms(6) by (simp add: nat_mult_distrib)
  ultimately have "\<exists>x. solves A b x \<and> (\<forall>y. solves A b y \<longrightarrow> y = x)"
    using dominant_system_unique[OF sh] by blast
  then show ?thesis
    unfolding laplacian_ok[OF assms(1,2)] using A rows by blast
qed

theorem linear_system_unique_solution_witness:
  "is_grid 1 2 [[1, 2::real]] \<and> is_grid 1 2 [[1, 1::real]] \<and>
   positive_grid [[1, 2]] \<and> positive_grid [[1, 1]] \<and> (0::real) \<le> 1 \<and> length [1, 0::real] = 1 * 2 \<and>
   (\<exists>F A. laplacian [[1, 2]] [[1, 1]] (int 1) (int 2) = Inr F \<and> linear_system 1 F = Inr A \<and>
      (\<exists>x. solves A [1, 0] x \<and> (\<forall>y. solves A [1, 0] y \<longrightarrow> y = x)))"
proof -
  have g: "is_grid 1 2 [[1, 2::real]]" "is_grid 1 2 [[1, 1::real]]"
    by (simp_all add: is_grid_def)
  have w: "positive_grid [[1, 2]]" "positive_grid [[1, 1]]"
    by (simp_all add: positive_grid_def)
  have l: "(0::real) \<le> 1" "length [1, 0::real] = 1 * 2" by simp_all
  from linear_system_unique_solution[OF g w l] g w l show ?thesis by blast
qed

text \<open>
  The claim as stated fails: for the positive weight maps \<open>wx = [[1, 2]]\<close>,
  \<open>wy = [[1, 1]]\<close> of a 1 by 2 image the assembled matrix is
  \<open>[[2, -2], [-1, 1]]\<close>. It is not symmetric, its quadratic form is negative at
  \<open>(2, 3)\<close>, and \<open>I + lambda * F\<close> is neither symmetric (\<open>lambda = 1\<close>) nor positive
  definite (\<open>lambda = 100\<close>, at \<open>(2, 3)\<close>).
\<close>

theorem laplacian_not_symmetric:
  "positive_grid [[1, 2]] \<and> positive_grid [[1, 1]] \<and>
   laplacian [[1, 2]] [[1, 1]] 1 2
     = Inr \<lparr>nrow = 2, ncol = 2, entries = [(0, 1, - 2), (0, 0, 2), (1, 0, - 1), (1, 1, 1)]\<rparr> \<and>
   \<not> symmetric_matrix \<lparr>nrow = 2, ncol = 2, entries = [(0, 1, - 2), (0, 0, 2), (1, 0, - 1), (1, 1, 1)]\<rparr> \<and>
   quad_form \<lparr>nrow = 2, ncol = 2, entries = [(0, 1, - 2), (0, 0, 2), (1, 0, - 1), (1, 1, 1)]\<rparr> [2, 3] < 0 \<and>
   linear_system 1 \<lparr>nrow = 2, ncol = 2, entries = [(0, 1, - 2), (0, 0, 2), (1, 0, - 1), (1, 1, 1)]\<rparr>
     = Inr \<lparr>nrow = 2, ncol = 2,
            entries = [(0, 0, 1), (1, 1, 1), (0, 1, - 2), (0, 0, 2), (1, 0, - 1), (1, 1, 1)]\<rparr> \<and>
   \<not> symmetric_matrix \<lparr>nrow = 2, ncol = 2,
            entries = [(0, 0, 1), (1, 1, 1), (0, 1, - 2), (0, 0, 2), (1, 0, - 1), (1, 1, 1)]\<rparr> \<and>
   linear_system 100 \<lparr>nrow = 2, ncol = 2, entries = [(0, 1, - 2), (0, 0, 2), (1, 0, - 1), (1, 1, 1)]\<rparr>
     = Inr \<lparr>nrow = 2, ncol = 2,
            entries = [(0, 0, 1), (1, 1, 1), (0, 1, - 200), (0, 0, 200), (1, 0, - 100), (1, 1, 100)]\<rparr> \<and>
   quad_form \<lparr>nrow = 2, ncol = 2,
            entries = [(0, 0, 1), (1, 1, 1), (0, 1, - 200), (0, 0, 200), (1, 0, - 100), (1, 1, 100)]\<rparr> [2, 3] < 0"
proof -
  have r2: "range_list 2 = [0, 1]" by (simp add: range_list_def upt_rec)
  have u2: "[0..<2] = [0, 1]" by (simp add: upt_rec)
  have lap: "laplacian [[1, 2]] [[1, 1]] 1 2
     = Inr \<lparr>nrow = 2, ncol = 2, entries = [(0, 1, - 2), (0, 0, 2), (1, 0, - 1), (1, 1, 1)]\<rparr>"
    by (simp add: laplacian_def r2 get_sparse_neighbor_def Let_def get2_def np_index_def csr_matrix_def)
  have ns: "\<not> symmetric_matrix \<lparr>nrow = 2, ncol = 2, entries = [(0, 1, - 2), (0, 0, 2), (1, 0, - 1), (1, 1, 1)]\<rparr>"
  proof
    assume "symmetric_matrix \<lparr>nrow = 2, ncol = 2, entries = [(0, 1, - 2), (0, 0, 2), (1, 0, - 1), (1, 1, 1)]\<rparr>"
    then have "coeff \<lparr>nrow = 2, ncol = 2, entries = [(0, 1, - 2), (0, 0, 2), (1, 0, - 1), (1, 1, 1)]\<rparr> 0 1
             = coeff \<lparr>nrow = 2, ncol = 2, entries = [(0, 1, - 2), (0, 0, 2), (1, 0, - 1), (1, 1, 1)]\<rparr> 1 0"
      unfolding symmetric_matrix_def by simp
    then show False by (simp add: coeff_def)
  qed
  have q: "quad_form \<lparr>nrow = 2, ncol = 2, entries = [(0, 1, - 2), (0, 0, 2), (1, 0, - 1), (1, 1, 1)]\<rparr> [2, 3] < 0"
    by (simp add: quad_form_def coeff_def u2)
  have a1: "linear_system 1 \<lparr>nrow = 2, ncol = 2, entries = [(0, 1, - 2), (0, 0, 2), (1, 0, - 1), (1, 1, 1)]\<rparr>
     = Inr \<lparr>nrow = 2, ncol = 2,
            entries = [(0, 0, 1), (1, 1, 1), (0, 1, - 2), (0, 0, 2), (1, 0, - 1), (1, 1, 1)]\<rparr>"
    by (simp add: linear_system_def sp_add_def sp_scale_def diags_ones_def r2)
  have ns1: "\<not> symmetric_matrix \<lparr>nrow = 2, ncol = 2,
            entries = [(0, 0, 1), (1, 1, 1), (0, 1, - 2), (0, 0, 2), (1, 0, - 1), (1, 1, 1)]\<rparr>"
  proof
    assume "symmetric_matrix \<lparr>nrow = 2, ncol = 2,
            entries = [(0, 0, 1), (1, 1, 1), (0, 1, - 2), (0, 0, 2), (1, 0, - 1), (1, 1, 1)]\<rparr>"
    then have "coeff \<lparr>nrow = 2, ncol = 2,
            entries = [(0, 0, 1), (1, 1, 1), (0, 1, - 2), (0, 0, 2), (1, 0, - 1), (1, 1, 1)]\<rparr> 0 1
             = coeff \<lparr>nrow = 2, ncol = 2,
            entries = [(0, 0, 1), (1, 1, 1), (0, 1, - 2), (0, 0, 2), (1, 0, - 1), (1, 1, 1)]\<rparr> 1 0"
      unfolding symmetric_matrix_def by simp
    then show False by (simp add: coeff_def)
  qed
  have a100: "linear_system 100 \<lparr>nrow = 2, ncol = 2, entries = [(0, 1, - 2), (0, 0, 2), (1, 0, - 1), (1, 1, 1)]\<rparr>
     = Inr \<lparr>nrow = 2, ncol = 2,
            entries = [(0, 0, 1), (1, 1, 1), (0, 1, - 200), (0, 0, 200), (1, 0, - 100), (1, 1, 100)]\<rparr>"
    by (simp add: linear_system_def sp_add_def sp_scale_def diags_ones_def r2)
  have q100: "quad_form \<lparr>nrow = 2, ncol = 2,
            entries = [(0, 0, 1), (1, 1, 1), (0, 1, - 200), (0, 0, 200), (1, 0, - 100), (1, 1, 100)]\<rparr> [2, 3] < 0"
    by (simp add: quad_form_def coeff_def u2)
  have w: "positive_grid [[1, 2]]" "positive_grid [[1, 1]]"
    by (simp_all add: positive_grid_def)
  show ?thesis using w lap ns q a1 ns1 a100 q100 by blast
qed

section \<open>Properties of create_spacial_affinity_kernel\<close>

lemma mapE_Inr: "(\<forall>x \<in> set xs. f x = Inr (g x)) \<Longrightarrow> mapE f xs = Inr (map g xs)"
  by (induction xs) simp_all

lemma mapE_result:
  "mapE f xs = Inr ys \<Longrightarrow> length ys = length xs \<and> (\<forall>i < length xs. f (xs ! i) = Inr (ys ! i))"
proof (induction xs arbitrary: ys)
  case Nil
  then show ?case by simp
next
  case (Cons x xs)
  from Cons.prems obtain y ys' where y: "f x = Inr y" and ys': "mapE f xs = Inr ys'" and e: "ys = y # ys'"
    by (auto simp: bindE_def split: sum.splits)
  from Cons.IH[OF ys'] have ih: "length ys' = length xs" "\<forall>i < length xs. f (xs ! i) = Inr (ys' ! i)"
    by auto
  show ?case using y ih e by (auto simp: nth_Cons split: nat.splits)
qed


lemma range_list_length: "length (range_list k) = nat k"
  by (simp add: range_list_def)

lemma euclidean_sq: "(euclidean (i, j) (c, d))\<^sup>2 = (real_of_int (i - c))\<^sup>2 + (real_of_int (j - d))\<^sup>2"
  by (simp add: euclidean_def)

lemma kernel_table:
  assumes "spatial_sigma \<noteq> 0" "0 \<le> size'"
  shows "create_spacial_affinity_kernel spatial_sigma size' =
           Inr (map (\<lambda>i. map (\<lambda>j. exp (- 0.5 * ((real_of_int (i - size' div 2))\<^sup>2
                                                 + (real_of_int (j - size' div 2))\<^sup>2) / spatial_sigma\<^sup>2))
                            (range_list size')) (range_list size'))"
proof -
  have cell: "kernel_cell spatial_sigma size' i j =
                Inr (exp (- 0.5 * ((real_of_int (i - size' div 2))\<^sup>2
                                   + (real_of_int (j - size' div 2))\<^sup>2) / spatial_sigma\<^sup>2))" for i j
    using assms(1) by (simp add: kernel_cell_def euclidean_sq)
  show ?thesis
    using assms(2) by (simp add: create_spacial_affinity_kernel_def cell mapE_Inr)
qed



section \<open>Properties of the gamma correction\<close>


lemma np_power_pos: "0 < b \<Longrightarrow> np_power b e = Inr (b powr e)"
  by (simp add: np_power_def)

lemma gamma_correction_table:
  assumes "0 < eps"
  shows "gamma_correction g eps gamma = Inr (map (map (\<lambda>v. np_clip v eps 1 powr gamma)) g)"
proof -
  have pos: "0 < np_clip v eps 1" for v
    using assms by (simp add: np_clip_def)
  have "mapE (\<lambda>v. np_power (np_clip v eps 1) gamma) r = Inr (map (\<lambda>v. np_clip v eps 1 powr gamma) r)" for r
    by (intro mapE_Inr) (simp add: np_power_pos[OF pos])
  then show ?thesis
    unfolding gamma_correction_def by (intro mapE_Inr) simp
qed




lemma unit_image_system:
  "refine_system [[v]] lambda [[1]] (1 / 2)
     = Inr (\<lparr>nrow = 1, ncol = 1, entries = [(0, 0, 1), (0, 0, 0)]\<rparr>, [v])"
proof -
  have r1: "range_list 1 = [0]" by (simp add: range_list_def)
  have w: "compute_smoothness_weights [[v]] x [[1]] (1 / 2) = Inr [[4]]" if "x = 1 \<or> x = 0" for x
    using that
    by (auto simp: compute_smoothness_weights_def sobel_dx_def sobel_dy_def nrows_def ncols_def
        reflect101_def convolve_def Let_def cell0_def ones_like_def grid_abs_def
        grid_add_scalar_def grid_div_def)
  have lap: "laplacian [[4]] [[4]] 1 1 = Inr \<lparr>nrow = 1, ncol = 1, entries = [(0, 0, 0)]\<rparr>"
    by (simp add: laplacian_def r1 get_sparse_neighbor_def Let_def csr_matrix_def)
  show ?thesis
    by (simp add: refine_system_def w nrows_def ncols_def flatten_def lap linear_system_def
        sp_add_def sp_scale_def diags_ones_def r1)
qed

lemma unit_image_refine:
  "refine_illumination_map_linear (\<lambda>A b. Inr b) [[0]] gamma' lambda [[1]] (1 / 2)
           = Inr [[(1 / 2) powr gamma']]"
  by (simp add: refine_illumination_map_linear_def unit_image_system reshape_def nrows_def
      ncols_def gamma_correction_def np_clip_def np_power_def)





section \<open>Parameter validation\<close>

lemma refine_any_gamma:
  assumes "refine_system L lambda kern eps = Inr (A, b)" "spsolve A b = Inr x"
    and "reshape x (nrows L) (ncols L) = Inr g" "0 < eps"
  shows "refine_illumination_map_linear spsolve L gamma lambda kern eps
           = Inr (map (map (\<lambda>v. np_clip v eps 1 powr gamma)) g)"
  by (simp add: refine_illumination_map_linear_def assms(1-3) gamma_correction_table[OF assms(4)])

text \<open>
  Claim C8, as amended. No operation validates its parameters, and none raises an
  InvalidParameter error (the code has no such error). For every \<open>sigma \<noteq> 0\<close>,
  negative ones included, and every \<open>size \<ge> 0\<close>, even ones included,
  \<open>create_spacial_affinity_kernel\<close> returns a \<open>size\<close> by \<open>size\<close> kernel, the same one
  as for \<open>- sigma\<close>. For every \<open>gamma\<close>, non-positive ones included, and \<open>eps > 0\<close>,
  \<open>refine_illumination_map_linear\<close> returns \<open>clip(x, eps, 1) ** gamma\<close> of the solver's
  reshaped result whenever the stages before the gamma correction succeed. The
  parameters are used as given: nothing is clamped.
\<close>

theorem parameters_not_validated:
  "(spatial_sigma \<noteq> 0 \<and> 0 \<le> size' \<longrightarrow>
      (\<exists>k. create_spacial_affinity_kernel spatial_sigma size' = Inr k \<and>
           is_grid (nat size') (nat size') k \<and>
           create_spacial_affinity_kernel (- spatial_sigma) size' = Inr k)) \<and>
   (refine_system L lambda kern eps = Inr (A, b) \<and> spsolve A b = Inr x \<and>
    reshape x (nrows L) (ncols L) = Inr g \<and> 0 < eps \<longrightarrow>
      refine_illumination_map_linear spsolve L gamma lambda kern eps
        = Inr (map (map (\<lambda>v. np_clip v eps 1 powr gamma)) g))"
proof (intro conjI impI)
  assume h: "spatial_sigma \<noteq> 0 \<and> 0 \<le> size'"
  then have h': "- spatial_sigma \<noteq> 0" by simp
  have "is_grid (nat size') (nat size')
          (map (\<lambda>i. map (\<lambda>j. exp (- 0.5 * ((real_of_int (i - size' div 2))\<^sup>2
                                                 + (real_of_int (j - size' div 2))\<^sup>2) / spatial_sigma\<^sup>2))
                            (range_list size')) (range_list size'))"
    by (auto simp: is_grid_def range_list_length)
  then show "\<exists>k. create_spacial_affinity_kernel spatial_sigma size' = Inr k \<and>
           is_grid (nat size') (nat size') k \<and>
           create_spacial_affinity_kernel (- spatial_sigma) size' = Inr k"
    using kernel_table[of spatial_sigma size'] kernel_table[OF h', of size'] h by simp
next
  assume "refine_system L lambda kern eps = Inr (A, b) \<and> spsolve A b = Inr x \<and>
    reshape x (nrows L) (ncols L) = Inr g \<and> 0 < eps"
  then show "refine_illumination_map_linear spsolve L gamma lambda kern eps
        = Inr (map (map (\<lambda>v. np_clip v eps 1 powr gamma)) g)"
    using refine_any_gamma by blast
qed

lemma kernel_minus_one_two:
  "create_spacial_affinity_kernel (- 1) 2 = Inr [[exp (- 1), exp (- (1 / 2))], [exp (- (1 / 2)), 1]]"
proof -
  have r2: "range_list 2 = [0, 1]" by (simp add: range_list_def upt_rec)
  show ?thesis
    using kernel_table[of "- 1" 2] by (simp add: r2)
qed

theorem parameters_not_validated_witness:
  "(- 1 :: real) \<noteq> 0 \<and> (0::int) \<le> 2 \<and>
   create_spacial_affinity_kernel (- 1) 2 = Inr [[exp (- 1), exp (- (1 / 2))], [exp (- (1 / 2)), 1]] \<and>
   create_spacial_affinity_kernel (- (- 1)) 2 = Inr [[exp (- 1), exp (- (1 / 2))], [exp (- (1 / 2)), 1]] \<and>
   refine_system [[0]] (1 / 5) [[1]] (1 / 2)
     = Inr (\<lparr>nrow = 1, ncol = 1, entries = [(0, 0, 1), (0, 0, 0)]\<rparr>, [0]) \<and>
   reshape [0] (nrows [[0::real]]) (ncols [[0::real]]) = Inr [[0]] \<and> (0::real) < 1 / 2 \<and>
   refine_illumination_map_linear (\<lambda>A b. Inr b) [[0]] (- 1) (1 / 5) [[1]] (1 / 2)
     = Inr (map (map (\<lambda>v. np_clip v (1 / 2) 1 powr (- 1))) [[0]])"
proof -
  have s: "(- 1 :: real) \<noteq> 0 \<and> (0::int) \<le> 2" by simp
  have sys: "refine_system [[0]] (1 / 5) [[1]] (1 / 2)
     = Inr (\<lparr>nrow = 1, ncol = 1, entries = [(0, 0, 1), (0, 0, 0)]\<rparr>, [0])"
    by (rule unit_image_system)
  have rs: "reshape [0] (nrows [[0::real]]) (ncols [[0::real]]) = Inr [[0]]"
    by (simp add: reshape_def nrows_def ncols_def)
  have e: "(0::real) < 1 / 2" by simp
  note t = parameters_not_validated[of "- 1" 2 "[[0]]" "1 / 5" "[[1]]" "1 / 2"
      "\<lparr>nrow = 1, ncol = 1, entries = [(0, 0, 1), (0, 0, 0)]\<rparr>" "[0]" "\<lambda>A b. Inr b" "[0]" "[[0]]" "- 1"]
  from t s obtain k where k: "create_spacial_affinity_kernel (- 1) 2 = Inr k"
    "create_spacial_affinity_kernel (- (- 1)) 2 = Inr k"
    by blast
  from t sys rs e have r: "refine_illumination_map_linear (\<lambda>A b. Inr b) [[0]] (- 1) (1 / 5) [[1]] (1 / 2)
     = Inr (map (map (\<lambda>v. np_clip v (1 / 2) 1 powr (- 1))) [[0]])"
    by blast
  from k kernel_minus_one_two have "k = [[exp (- 1), exp (- (1 / 2))], [exp (- (1 / 2)), 1]]" by simp
  with k s sys rs e r show ?thesis by blast
qed

text \<open>
  The claim as stated fails: a negative sigma with an even size gives a kernel, and
  a negative gamma gives an output grid (here \<open>(1/2) ** (-1) = 2\<close>); no error is raised.
\<close>

theorem invalid_parameters_accepted:
  "create_spacial_affinity_kernel (- 1) 2 = Inr [[exp (- 1), exp (- (1 / 2))], [exp (- (1 / 2)), 1]] \<and>
   refine_illumination_map_linear (\<lambda>A b. Inr b) [[0]] (- 1) (1 / 5) [[1]] (1 / 2) = Inr [[2]]"
proof -
  have "(1 / 2 :: real) powr (- 1) = 2"
    by (simp add: powr_minus_divide)
  then show ?thesis
    using kernel_minus_one_two unit_image_refine[of "- 1" "1 / 5"] by simp
qed

section \<open>The constant 4 by 4 scenario\<close>

lemma u3: "[0..<3] = [0, 1, 2]" by (simp add: upt_rec)
lemma u4: "[0..<4] = [0, 1, 2, 3]" by (simp add: upt_rec)

lemma scen_sobel_dx:
  "sobel_dx [[1/2, 1/2, 1/2, 1/2], [1/2, 1/2, 1/2, 1/2], [1/2, 1/2, 1/2, 1/2], [1/2, 1/2, 1/2, 1/2]]
     = Inr [[0, 0, 0, 0], [0, 0, 0, 0], [0, 0, 0, 0], [0, 0, 0, 0]]"
  by (simp add: sobel_dx_def nrows_def ncols_def u4 reflect101_def)

lemma scen_sobel_dy:
  "sobel_dy [[1/2, 1/2, 1/2, 1/2], [1/2, 1/2, 1/2, 1/2], [1/2, 1/2, 1/2, 1/2], [1/2, 1/2, 1/2, 1/2]]
     = Inr [[0, 0, 0, 0], [0, 0, 0, 0], [0, 0, 0, 0], [0, 0, 0, 0]]"
  by (simp add: sobel_dy_def nrows_def ncols_def u4 reflect101_def)

lemma scen_convolve:
  "convolve [[a, a, a, a], [a, a, a, a], [a, a, a, a], [a, a, a, a]] [[0, 0, 0], [0, 1, 0], [0, 0, 0]]
     = Inr [[a, a, a, a], [a, a, a, a], [a, a, a, a], [a, a, a, a]]"
  by (simp add: convolve_def nrows_def ncols_def u3 u4 Let_def cell0_def)


lemma scen_weights:
  assumes "x = 1 \<or> x = 0"
  shows "compute_smoothness_weights
           [[1/2, 1/2, 1/2, 1/2], [1/2, 1/2, 1/2, 1/2], [1/2, 1/2, 1/2, 1/2], [1/2, 1/2, 1/2, 1/2]]
           x [[0, 0, 0], [0, 1, 0], [0, 0, 0]] (1 / 1000)
         = Inr [[1000000, 1000000, 1000000, 1000000], [1000000, 1000000, 1000000, 1000000],
                [1000000, 1000000, 1000000, 1000000], [1000000, 1000000, 1000000, 1000000]]"
proof -
  have d: "(if x = 1 then sobel_dx [[1/2, 1/2, 1/2, 1/2], [1/2, 1/2, 1/2, 1/2], [1/2, 1/2, 1/2, 1/2], [1/2, 1/2, 1/2, 1/2]]
            else if x = 0 then sobel_dy [[1/2, 1/2, 1/2, 1/2], [1/2, 1/2, 1/2, 1/2], [1/2, 1/2, 1/2, 1/2], [1/2, 1/2, 1/2, 1/2]]
            else Inl Cv2Error)
           = Inr [[0, 0, 0, 0], [0, 0, 0, 0], [0, 0, 0, 0], [0, 0, 0, 0]]"
    using assms scen_sobel_dx scen_sobel_dy by auto
  have o: "ones_like [[1/2, 1/2, 1/2, 1/2], [1/2, 1/2, 1/2, 1/2], [1/2, 1/2, 1/2, 1/2], [1/2, 1/2, 1/2, 1/2::real]]
           = [[1, 1, 1, 1], [1, 1, 1, 1], [1, 1, 1, 1], [1, 1, 1, 1]]"
    by (simp add: ones_like_def)
  show ?thesis
    unfolding compute_smoothness_weights_def d bindE_Inr o scen_convolve
    by (simp add: grid_abs_def grid_add_scalar_def grid_div_def)
qed

lemma lap_matrix_total:
  assumes "0 < m" "0 \<le> p" "p < n * m"
  shows "(\<Sum>q \<in> {0..<n * m}. coeff (lap_matrix wx wy n m) p q) = 0"
proof -
  let ?F = "lap_matrix wx wy n m"
  have off: "(\<Sum>q \<in> {0..<n * m} - {p}. coeff ?F p q) = - row_diag wx wy n m p"
    using lap_matrix_offdiag_sum[OF assms, of "\<lambda>v. v" wx wy]
    by (simp add: row_diag_def uminus_sum_list_map comp_def split_def)
  have "(\<Sum>q \<in> {0..<n * m}. coeff ?F p q) = coeff ?F p p + (\<Sum>q \<in> {0..<n * m} - {p}. coeff ?F p q)"
    using assms(2,3) by (intro sum.remove) auto
  then show ?thesis using off lap_matrix_diag[OF assms, of wx wy] by simp
qed

lemma constant_solves:
  assumes A: "linear_system lambda (lap_matrix wx wy (int n) (int m)) = Inr A"
  shows "solves A (replicate (n * m) v) (replicate (n * m) v)"
proof -
  let ?N = "int n * int m"
  let ?F = "lap_matrix wx wy (int n) (int m)"
  from linear_system_ok[of lambda wx wy n m] A
  have sh: "nrow A = ?N" "ncol A = ?N"
    and cA: "\<And>p q. coeff A p q = (if p = q \<and> 0 \<le> p \<and> p < ?N then 1 else 0) + lambda * coeff ?F p q"
    by auto
  have len: "length (replicate (n * m) v) = nat ?N" by (simp add: nat_mult_distrib)
  have "(\<Sum>q \<in> {0..<?N}. coeff A p q * replicate (n * m) v ! nat q) = replicate (n * m) v ! nat p"
    if p: "p \<in> {0..<?N}" for p
  proof -
    have pr: "0 \<le> p" "p < ?N" using p by auto
    have m: "0 < int m" by (rule grid_cols_pos[OF pr])
    have nth: "replicate (n * m) v ! nat q = v" if "q \<in> {0..<?N}" for q
    proof -
      have "nat q < nat ?N" using that by auto
      then show ?thesis by (simp add: nat_mult_distrib)
    qed
    have "(\<Sum>q \<in> {0..<?N}. coeff A p q * replicate (n * m) v ! nat q) = (\<Sum>q \<in> {0..<?N}. coeff A p q * v)"
      by (intro sum.cong refl) (simp add: nth)
    also have "\<dots> = (\<Sum>q \<in> {0..<?N}. coeff A p q) * v" by (simp add: sum_distrib_right)
    also have "(\<Sum>q \<in> {0..<?N}. coeff A p q)
                 = (\<Sum>q \<in> {0..<?N}. if p = q then 1 else 0) + lambda * (\<Sum>q \<in> {0..<?N}. coeff ?F p q)"
      using pr by (simp add: cA sum.distrib sum_distrib_left)
    also have "\<dots> = 1" using p by (simp add: lap_matrix_total[OF m pr])
    finally show ?thesis using nth[OF p] by simp
  qed
  then show ?thesis unfolding solves_iff[OF sh len] by (simp add: nat_mult_distrib)
qed

lemma refine_matrix_unique:
  assumes "is_grid n m wx" "is_grid n m wy" "positive_grid wx" "positive_grid wy"
    and "0 \<le> lambda" "length b = n * m"
    and A: "linear_system lambda (lap_matrix wx wy (int n) (int m)) = Inr A"
    and x: "solves A b x" and y: "solves A b y"
  shows "x = y"
proof -
  let ?N = "int n * int m"
  from linear_system_ok[of lambda wx wy n m] A
  have sh: "nrow A = ?N" "ncol A = ?N"
    and cA: "\<forall>p q. coeff A p q = (if p = q \<and> 0 \<le> p \<and> p < ?N then 1 else 0)
                        + lambda * coeff (lap_matrix wx wy (int n) (int m)) p q"
    by auto
  have "dominant {0..<?N} (coeff A)"
    unfolding dominant_def
  proof
    fix p assume "p \<in> {0..<?N}"
    then have p: "0 \<le> p" "p < ?N" by auto
    have "0 \<le> lambda * row_diag wx wy (int n) (int m) p"
      using assms(5) row_diag_nonneg[OF assms(1-4) p] by simp
    then show "(\<Sum>q \<in> {0..<?N} - {p}. \<bar>coeff A p q\<bar>) < \<bar>coeff A p p\<bar>"
      unfolding system_dominant[OF assms(1-5) cA p] by simp
  qed
  moreover have "length b = nat ?N" using assms(6) by (simp add: nat_mult_distrib)
  ultimately obtain z where "\<forall>y. solves A b y \<longrightarrow> y = z"
    using dominant_system_unique[OF sh] by blast
  then have "x = z" "y = z" using x y by blast+
  then show ?thesis by simp
qed


lemma scen_system:
  "refine_system (grid4 (1 / 2)) lambda peaked_kernel (1 / 1000) = Inr (A, b) \<longleftrightarrow>
     linear_system lambda (lap_matrix (grid4 1000000) (grid4 1000000) (int 4) (int 4)) = Inr A \<and>
     b = replicate (4 * 4) (1 / 2)"
proof -
  have g: "is_grid 4 4 (grid4 1000000)" by (simp add: is_grid_def)
  have fl: "flatten (grid4 (1 / 2)) = replicate (4 * 4) (1 / 2)"
    by (simp add: flatten_def numeral_eq_Suc)
  have sh: "int (nrows (grid4 (1 / 2))) = int 4" "int (ncols (grid4 (1 / 2))) = int 4"
    by (simp_all add: nrows_def ncols_def)
  show ?thesis
    unfolding refine_system_def scen_weights[of 1, simplified] scen_weights[of 0, simplified]
      bindE_Inr Let_def sh fl laplacian_ok[OF g g]
    by (auto simp: bindE_def split: sum.splits)
qed

lemma scen_reshape: "reshape (replicate (4 * 4) v) 4 4 = Inr (grid4 v)"
  by (simp add: reshape_def u4 numeral_eq_Suc)

lemma scen_gamma: "gamma_correction (grid4 (1 / 2)) (1 / 1000) gamma = Inr (grid4 ((1 / 2) powr gamma))"
proof -
  have c: "np_clip (1 / 2) (1 / 1000) 1 = 1 / 2" by (simp add: np_clip_def)
  show ?thesis by (simp add: gamma_correction_table c)
qed

lemma scen_positive: "positive_grid (grid4 1000000)" "is_grid 4 4 (grid4 1000000)"
  by (simp_all add: positive_grid_def is_grid_def)

text \<open>
  Claim C5, as amended. For the constant 0.5 luminance map of shape 4 by 4, gamma 0.6,
  lambda 0.2, the default eps = 0.001 and the 3 by 3 kernel with centre 1, and a solver
  that is correct on this input: both directional derivatives are zero everywhere,
  both smoothness weight maps equal \<open>1 / eps ** 2 = 1000000\<close> everywhere (not
  \<open>1 / eps\<close>), the constant 0.5 vector is the only solution of the linear system and
  the solver's answer, and the output is the constant grid of \<open>0.5 ** 0.6\<close>.
\<close>

theorem constant_scenario:
  assumes "solver_correct_for spsolve (grid4 (1 / 2)) (1 / 5) peaked_kernel (1 / 1000)"
  shows "sobel_dx (grid4 (1 / 2)) = Inr (grid4 0) \<and> sobel_dy (grid4 (1 / 2)) = Inr (grid4 0) \<and>
         compute_smoothness_weights (grid4 (1 / 2)) 1 peaked_kernel (1 / 1000) = Inr (grid4 (1 / (1 / 1000)\<^sup>2)) \<and>
         compute_smoothness_weights (grid4 (1 / 2)) 0 peaked_kernel (1 / 1000) = Inr (grid4 (1 / (1 / 1000)\<^sup>2)) \<and>
         (\<exists>A. refine_system (grid4 (1 / 2)) (1 / 5) peaked_kernel (1 / 1000) = Inr (A, replicate (4 * 4) (1 / 2)) \<and>
              spsolve A (replicate (4 * 4) (1 / 2)) = Inr (replicate (4 * 4) (1 / 2)) \<and>
              (\<forall>x. solves A (replicate (4 * 4) (1 / 2)) x \<longrightarrow> x = replicate (4 * 4) (1 / 2))) \<and>
         refine_illumination_map_linear spsolve (grid4 (1 / 2)) (3 / 5) (1 / 5) peaked_kernel (1 / 1000)
           = Inr (grid4 ((1 / 2) powr (3 / 5)))"
proof -
  let ?b = "replicate (4 * 4) (1 / 2 :: real)"
  let ?F = "lap_matrix (grid4 1000000) (grid4 1000000) (int 4) (int 4)"
  from linear_system_ok[of "1 / 5" "grid4 1000000" "grid4 1000000" 4 4]
  obtain A where A: "linear_system (1 / 5) ?F = Inr A" by blast
  then have sys: "refine_system (grid4 (1 / 2)) (1 / 5) peaked_kernel (1 / 1000) = Inr (A, ?b)"
    unfolding scen_system by simp
  from assms sys obtain x where x: "spsolve A ?b = Inr x" "solves A ?b x"
    unfolding solver_correct_for_def by blast
  have cs: "solves A ?b ?b" by (rule constant_solves[OF A])
  have uniq: "y = ?b" if "solves A ?b y" for y
    by (rule refine_matrix_unique[OF scen_positive(2,2) scen_positive(1,1) _ _ A that cs]) simp_all
  have xb: "x = ?b" by (rule uniq[OF x(2)])
  have out: "refine_illumination_map_linear spsolve (grid4 (1 / 2)) (3 / 5) (1 / 5) peaked_kernel (1 / 1000)
           = Inr (grid4 ((1 / 2) powr (3 / 5)))"
  proof -
    have nr: "nrows (grid4 (1 / 2)) = 4" "ncols (grid4 (1 / 2)) = 4"
      by (simp_all add: nrows_def ncols_def)
    show ?thesis
      unfolding refine_illumination_map_linear_def sys bindE_Inr prod.case x(1) xb nr
        scen_reshape scen_gamma
      by (rule refl)
  qed
  have w: "compute_smoothness_weights (grid4 (1 / 2)) 1 peaked_kernel (1 / 1000) = Inr (grid4 (1 / (1 / 1000)\<^sup>2))"
    "compute_smoothness_weights (grid4 (1 / 2)) 0 peaked_kernel (1 / 1000) = Inr (grid4 (1 / (1 / 1000)\<^sup>2))"
  proof -
    have e2: "1 / (1 / 1000 :: real)\<^sup>2 = 1000000" by (simp add: power2_eq_square)
    show "compute_smoothness_weights (grid4 (1 / 2)) 1 peaked_kernel (1 / 1000) = Inr (grid4 (1 / (1 / 1000)\<^sup>2))"
      unfolding e2 using scen_weights[of 1] by simp
    show "compute_smoothness_weights (grid4 (1 / 2)) 0 peaked_kernel (1 / 1000) = Inr (grid4 (1 / (1 / 1000)\<^sup>2))"
      unfolding e2 using scen_weights[of 0] by simp
  qed
  show ?thesis
    using scen_sobel_dx scen_sobel_dy w sys x(1) xb uniq out by blast
qed

theorem constant_scenario_witness:
  "solver_correct_for (\<lambda>A b. Inr b) (grid4 (1 / 2)) (1 / 5) peaked_kernel (1 / 1000) \<and>
   refine_illumination_map_linear (\<lambda>A b. Inr b) (grid4 (1 / 2)) (3 / 5) (1 / 5) peaked_kernel (1 / 1000)
     = Inr (grid4 ((1 / 2) powr (3 / 5)))"
proof -
  have h: "solver_correct_for (\<lambda>A b. Inr b) (grid4 (1 / 2)) (1 / 5) peaked_kernel (1 / 1000)"
    unfolding solver_correct_for_def scen_system using constant_solves by blast
  from constant_scenario[OF h] h show ?thesis by blast
qed

text \<open>
  The claim as stated fails in one part: the smoothness weights of the scenario are
  \<open>1000000 = 1 / eps ** 2\<close>, not \<open>1 / eps = 1000\<close> (\<open>T = 1 / eps\<close> is divided once more
  by \<open>|Lp| + eps\<close>).
\<close>

theorem scenario_weights_not_inverse_eps:
  "compute_smoothness_weights (grid4 (1 / 2)) 1 peaked_kernel (1 / 1000) = Inr (grid4 1000000) \<and>
   compute_smoothness_weights (grid4 (1 / 2)) 0 peaked_kernel (1 / 1000) = Inr (grid4 1000000) \<and>
   (1000000 :: real) \<noteq> 1 / (1 / 1000)"
  using scen_weights[of 1] scen_weights[of 0] by simp

section \<open>Properties of Standard_WLSLoss.forward\<close>



lemma map2_same: "map2 f (map g xs) (map h xs) = map (\<lambda>x. f (g x) (h x)) xs"
  by (induction xs) auto

lemma map2_maps: "map2 f (map g xs) (map g ys) = map2 (\<lambda>u v. f (g u) (g v)) xs ys"
  by (simp add: zip_map_map map_prod_def split_def)

lemma map_map2: "map k (map2 f xs ys) = map2 (\<lambda>u v. k (f u v)) xs ys"
  by (simp add: split_def)

lemma py_slice_to_last: "py_slice_to (int (length xs) - 1) xs = take (length xs - 1) xs"
  by (cases xs) (simp_all add: py_slice_to_def)

lemma tensor_shape_h: "is_tensor c h w t \<Longrightarrow> ch \<in> set t \<Longrightarrow> shape_h t = h \<and> length ch = h"
  by (cases t) (auto simp: is_tensor_def is_grid_def shape_h_def nrows_def)

lemma tensor_shape_w: "is_tensor c h w t \<Longrightarrow> ch \<in> set t \<Longrightarrow> r \<in> set ch \<Longrightarrow> shape_w t = w \<and> length r = w"
proof -
  assume t: "is_tensor c h w t" and ch: "ch \<in> set t" and r: "r \<in> set ch"
  have len: "length r = w" using t ch r by (auto simp: is_tensor_def is_grid_def)
  obtain ch0 t' where t0: "t = ch0 # t'" using ch by (cases t) auto
  have g0: "is_grid h w ch0" using t t0 by (simp add: is_tensor_def)
  have "length ch = h" using t ch by (auto simp: is_tensor_def is_grid_def)
  then have "0 < h" using r by (cases ch) auto
  then obtain r0 ch0' where c0: "ch0 = r0 # ch0'" using g0 by (cases ch0) (auto simp: is_grid_def)
  have "length r0 = w" using g0 c0 by (simp add: is_grid_def)
  then show ?thesis using len by (simp add: shape_w_def ncols_def t0 c0)
qed

lemma forward_closed:
  assumes "is_tensor c h w G"
  shows "forward epsilon alpha G =
           (map (map (\<lambda>r. map2 (log_weight epsilon alpha) (take (w - 1) r) (drop 1 r))) G,
            map (\<lambda>ch. map2 (map2 (log_weight epsilon alpha)) (take (h - 1) ch) (drop 1 ch)) G)"
proof -
  let ?g = "\<lambda>v. f_log (f_add v (Fin epsilon))"
  let ?k = "\<lambda>d. f_div (Fin 1) (f_add (Fin epsilon) (f_pow (f_abs d) alpha))"
  have lw: "?k (f_sub (?g u) (?g v)) = log_weight epsilon alpha u v" for u v
    by (simp add: log_weight_def)
  have inner: "map ?k (map2 f_sub (map ?g u) (map ?g v)) = map2 (log_weight epsilon alpha) u v" for u v
  proof -
    have "map ?k (map2 f_sub (map ?g u) (map ?g v)) = map ?k (map2 (\<lambda>a b. f_sub (?g a) (?g b)) u v)"
      by (simp only: map2_maps)
    also have "\<dots> = map2 (\<lambda>a b. ?k (f_sub (?g a) (?g b))) u v"
      by (rule map_map2)
    also have "\<dots> = map2 (log_weight epsilon alpha) u v"
      by (simp only: lw)
    finally show ?thesis .
  qed
  have row: "map ?k (map2 f_sub (py_slice_to (int (shape_w G) - 1) (map ?g r)) (drop 1 (map ?g r)))
               = map2 (log_weight epsilon alpha) (take (w - 1) r) (drop 1 r)"
    if "ch \<in> set G" "r \<in> set ch" for ch r
  proof -
    from tensor_shape_w[OF assms that] have sw: "shape_w G = length (map ?g r)" and lr: "length r = w"
      by simp_all
    have "map ?k (map2 f_sub (take (length (map ?g r) - 1) (map ?g r)) (drop 1 (map ?g r)))
            = map ?k (map2 f_sub (map ?g (take (w - 1) r)) (map ?g (drop 1 r)))"
      by (simp only: take_map drop_map length_map lr)
    also have "\<dots> = map2 (log_weight epsilon alpha) (take (w - 1) r) (drop 1 r)"
      by (rule inner)
    finally show ?thesis
      unfolding sw py_slice_to_last .
  qed
  have chan: "map (map ?k) (map2 (map2 f_sub) (py_slice_to (int (shape_h G) - 1) (map (map ?g) ch))
                                              (drop 1 (map (map ?g) ch)))
               = map2 (map2 (log_weight epsilon alpha)) (take (h - 1) ch) (drop 1 ch)"
    if "ch \<in> set G" for ch
  proof -
    from tensor_shape_h[OF assms that] have sh: "shape_h G = length (map (map ?g) ch)" and lc: "length ch = h"
      by simp_all
    have "map (map ?k) (map2 (map2 f_sub) (take (length (map (map ?g) ch) - 1) (map (map ?g) ch))
                                          (drop 1 (map (map ?g) ch)))
            = map (map ?k) (map2 (map2 f_sub) (map (map ?g) (take (h - 1) ch)) (map (map ?g) (drop 1 ch)))"
      by (simp only: take_map drop_map length_map lc)
    also have "\<dots> = map (map ?k) (map2 (\<lambda>u v. map2 f_sub (map ?g u) (map ?g v)) (take (h - 1) ch) (drop 1 ch))"
      by (simp only: map2_maps)
    also have "\<dots> = map2 (\<lambda>u v. map ?k (map2 f_sub (map ?g u) (map ?g v))) (take (h - 1) ch) (drop 1 ch)"
      by (rule map_map2)
    also have "\<dots> = map2 (map2 (log_weight epsilon alpha)) (take (h - 1) ch) (drop 1 ch)"
      by (simp only: inner)
    finally show ?thesis
      unfolding sh py_slice_to_last .
  qed
  let ?S = "py_slice_to (int (shape_w G) - 1)"
  have xch: "map (map ?k) (map2 (map2 f_sub) (map ?S (map (map ?g) ch)) (map (drop 1) (map (map ?g) ch)))
               = map (\<lambda>r. map2 (log_weight epsilon alpha) (take (w - 1) r) (drop 1 r)) ch"
    if "ch \<in> set G" for ch
  proof -
    have "map (map ?k) (map2 (map2 f_sub) (map ?S (map (map ?g) ch)) (map (drop 1) (map (map ?g) ch)))
            = map (map ?k) (map2 (map2 f_sub) (map (\<lambda>r. ?S (map ?g r)) ch) (map (\<lambda>r. drop 1 (map ?g r)) ch))"
      by (simp only: map_map comp_def)
    also have "\<dots> = map (map ?k) (map (\<lambda>r. map2 f_sub (?S (map ?g r)) (drop 1 (map ?g r))) ch)"
      by (simp only: map2_same)
    also have "\<dots> = map (\<lambda>r. map ?k (map2 f_sub (?S (map ?g r)) (drop 1 (map ?g r)))) ch"
      by (simp only: map_map comp_def)
    also have "\<dots> = map (\<lambda>r. map2 (log_weight epsilon alpha) (take (w - 1) r) (drop 1 r)) ch"
      by (rule map_cong[OF refl]) (rule row[OF that])
    finally show ?thesis .
  qed
  have ax: "tmap ?k (tsub (map (map ?S) (tmap ?g G)) (map (map (drop 1)) (tmap ?g G)))
              = map (map (\<lambda>r. map2 (log_weight epsilon alpha) (take (w - 1) r) (drop 1 r))) G"
  proof -
    have "tmap ?k (tsub (map (map ?S) (tmap ?g G)) (map (map (drop 1)) (tmap ?g G)))
            = map (map (map ?k)) (map2 (map2 (map2 f_sub))
                (map (\<lambda>ch. map ?S (map (map ?g) ch)) G) (map (\<lambda>ch. map (drop 1) (map (map ?g) ch)) G))"
      by (simp only: tmap_def tsub_def map_map comp_def)
    also have "\<dots> = map (map (map ?k)) (map (\<lambda>ch. map2 (map2 f_sub) (map ?S (map (map ?g) ch))
                                                      (map (drop 1) (map (map ?g) ch))) G)"
      by (simp only: map2_same)
    also have "\<dots> = map (\<lambda>ch. map (map ?k) (map2 (map2 f_sub) (map ?S (map (map ?g) ch))
                                                      (map (drop 1) (map (map ?g) ch)))) G"
      by (simp only: map_map comp_def)
    also have "\<dots> = map (map (\<lambda>r. map2 (log_weight epsilon alpha) (take (w - 1) r) (drop 1 r))) G"
      by (rule map_cong[OF refl]) (rule xch)
    finally show ?thesis .
  qed
  let ?T = "py_slice_to (int (shape_h G) - 1)"
  have ay: "tmap ?k (tsub (map ?T (tmap ?g G)) (map (drop 1) (tmap ?g G)))
              = map (\<lambda>ch. map2 (map2 (log_weight epsilon alpha)) (take (h - 1) ch) (drop 1 ch)) G"
  proof -
    have "tmap ?k (tsub (map ?T (tmap ?g G)) (map (drop 1) (tmap ?g G)))
            = map (map (map ?k)) (map2 (map2 (map2 f_sub))
                (map (\<lambda>ch. ?T (map (map ?g) ch)) G) (map (\<lambda>ch. drop 1 (map (map ?g) ch)) G))"
      by (simp only: tmap_def tsub_def map_map comp_def)
    also have "\<dots> = map (map (map ?k)) (map (\<lambda>ch. map2 (map2 f_sub) (?T (map (map ?g) ch))
                                                      (drop 1 (map (map ?g) ch))) G)"
      by (simp only: map2_same)
    also have "\<dots> = map (\<lambda>ch. map (map ?k) (map2 (map2 f_sub) (?T (map (map ?g) ch))
                                                      (drop 1 (map (map ?g) ch)))) G"
      by (simp only: map_map comp_def)
    also have "\<dots> = map (\<lambda>ch. map2 (map2 (log_weight epsilon alpha)) (take (h - 1) ch) (drop 1 ch)) G"
      by (rule map_cong[OF refl]) (rule chan)
    finally show ?thesis .
  qed
  show ?thesis
    unfolding forward_def Let_def ax ay ..
qed





text \<open>
  Claim C7. For a tensor of \<open>c\<close> channels of an \<open>h\<close> by \<open>w\<close> grid (shape \<open>(c, h, w)\<close>,
  channel first, as \<open>forward\<close> unpacks it; \<open>c = 3\<close> in the claim), every channel of the
  horizontal weight map has shape \<open>h\<close> by \<open>w - 1\<close>, one column narrower, and every
  channel of the vertical weight map has shape \<open>h - 1\<close> by \<open>w\<close>, one row shorter.
  Nothing is padded.
\<close>

theorem forward_shapes:
  assumes "is_tensor c h w G"
  shows "is_tensor c h (w - 1) (fst (forward epsilon alpha G)) \<and>
         is_tensor c (h - 1) w (snd (forward epsilon alpha G))"
proof -
  have rows: "length r = w" if "ch \<in> set G" "r \<in> set ch" for ch r
    using assms that by (auto simp: is_tensor_def is_grid_def)
  have chans: "length ch = h" if "ch \<in> set G" for ch
    using assms that by (auto simp: is_tensor_def is_grid_def)
  have len: "length G = c" using assms by (simp add: is_tensor_def)
  have x: "is_tensor c h (w - 1) (map (map (\<lambda>r. map2 (log_weight epsilon alpha) (take (w - 1) r) (drop 1 r))) G)"
    using len chans rows by (auto simp: is_tensor_def is_grid_def)
  have y: "is_tensor c (h - 1) w (map (\<lambda>ch. map2 (map2 (log_weight epsilon alpha)) (take (h - 1) ch) (drop 1 ch)) G)"
    unfolding is_tensor_def is_grid_def
  proof (intro conjI ballI)
    show "length (map (\<lambda>ch. map2 (map2 (log_weight epsilon alpha)) (take (h - 1) ch) (drop 1 ch)) G) = c"
      using len by simp
  next
    fix ch' assume "ch' \<in> set (map (\<lambda>ch. map2 (map2 (log_weight epsilon alpha)) (take (h - 1) ch) (drop 1 ch)) G)"
    then obtain ch where ch: "ch \<in> set G"
      and e: "ch' = map2 (map2 (log_weight epsilon alpha)) (take (h - 1) ch) (drop 1 ch)" by auto
    show "length ch' = h - 1" using chans[OF ch] by (simp add: e)
    fix r' assume "r' \<in> set ch'"
    then obtain u v where uv: "(u, v) \<in> set (zip (take (h - 1) ch) (drop 1 ch))"
      and r': "r' = map2 (log_weight epsilon alpha) u v"
      by (auto simp: e)
    have "u \<in> set ch" "v \<in> set ch"
      using uv by (auto dest: set_zip_leftD set_zip_rightD in_set_takeD in_set_dropD)
    then show "length r' = w" using rows[OF ch] by (simp add: r')
  qed
  show ?thesis unfolding forward_closed[OF assms] using x y by simp
qed

theorem forward_shapes_witness:
  "is_tensor 3 2 2 [[[Fin 0, Fin 1], [Fin 1, Fin 0]], [[Fin 0, Fin 1], [Fin 1, Fin 0]], [[Fin 0, Fin 1], [Fin 1, Fin 0]]] \<and>
   is_tensor 3 2 (2 - 1) (fst (forward (1 / 100) (6 / 5)
      [[[Fin 0, Fin 1], [Fin 1, Fin 0]], [[Fin 0, Fin 1], [Fin 1, Fin 0]], [[Fin 0, Fin 1], [Fin 1, Fin 0]]])) \<and>
   is_tensor 3 (2 - 1) 2 (snd (forward (1 / 100) (6 / 5)
      [[[Fin 0, Fin 1], [Fin 1, Fin 0]], [[Fin 0, Fin 1], [Fin 1, Fin 0]], [[Fin 0, Fin 1], [Fin 1, Fin 0]]]))"
proof -
  have t: "is_tensor 3 2 2 [[[Fin 0, Fin 1], [Fin 1, Fin 0]], [[Fin 0, Fin 1], [Fin 1, Fin 0]], [[Fin 0, Fin 1], [Fin 1, Fin 0]]]"
    by (simp add: is_tensor_def is_grid_def)
  from forward_shapes[OF t, of "1 / 100" "6 / 5"] t show ?thesis by blast
qed










end
